theory Spec2Isabelle
  imports Complex_Main "HOL-Library.Log_Nat" "HOL-Library.Multiset" "HOL-Library.AList"
begin

section \<open>Data model\<close>

text \<open>
  The cutting-stock optimiser of \<^verbatim>\<open>App.tsx\<close>: the allocator \<^verbatim>\<open>optimize\<close>, the helpers
  \<^verbatim>\<open>formatMm\<close> and \<^verbatim>\<open>aggregateDemands\<close>, and the statistics, the too-long pieces and
  the cut summary that \<^verbatim>\<open>ResultSection\<close> computes before it renders.

  Field names follow the interfaces of the source. Where two interfaces share a field name,
  or a name is taken by a HOL constant, the field carries a prefix:
  \<^verbatim>\<open>Material.id\<close> is \<open>mid\<close>, \<^verbatim>\<open>Demand.id\<close> is \<open>did\<close>,
  \<^verbatim>\<open>Pipe.stockLengthMm\<close> is \<open>pipeStockLengthMm\<close>, and the fields of
  \<^verbatim>\<open>AggregatedDemand\<close> that repeat those of \<^verbatim>\<open>Demand\<close> are prefixed with \<open>agg\<close>.
  Counters that the code only increments from zero are \<^typ>\<open>nat\<close>; the index
  \<^verbatim>\<open>bestIdx\<close> with its sentinel \<^verbatim>\<open>-1\<close> is an \<^typ>\<open>int\<close>.
\<close>

subsection \<open>Numbers\<close>

text \<open>
  A TypeScript \<^verbatim>\<open>number\<close> is an IEEE 754 double: a finite value, given here by the
  rational it denotes, one of the two infinities, or \<^verbatim>\<open>NaN\<close>. The two zeros are one
  value (the code never divides by a zero, compares them as equal and prints both as
  \<^verbatim>\<open>0\<close>).
\<close>

datatype number = Fin rat | PInf | NInf | NaN

text \<open>
  Rounding to the nearest double. \<open>ilog2 x\<close> is the binary exponent \<open>e\<close> of a positive
  \<open>x\<close>, with \<open>2^e \<le> x < 2^(e+1)\<close>. The doubles next to \<open>x\<close> are the multiples of \<open>2^q\<close> for
  \<open>q = e - 52\<close> (53 significant bits), and at least \<open>- 1074\<close> (the subnormal numbers); the
  nearer multiple is taken, of two equally near ones the even one. A result of exponent
  1024 or more (of magnitude \<open>2^1024\<close> or more) is an infinity.
\<close>

definition pow2 :: "int \<Rightarrow> rat" where
  "pow2 e = (if 0 \<le> e then of_int (2 ^ nat e) else 1 / of_int (2 ^ nat (- e)))"

definition ilog2 :: "rat \<Rightarrow> int" where
  "ilog2 x =
     (case quotient_of x of (p, q) \<Rightarrow>
        let e = bitlen p - bitlen q in if pow2 e \<le> x then e else e - 1)"

definition round_even :: "rat \<Rightarrow> int" where
  "round_even r =
     (let f = \<lfloor>r\<rfloor>; d = r - of_int f
      in if d < 1 / 2 then f else if 1 / 2 < d then f + 1 else if even f then f else f + 1)"

definition round_double :: "rat \<Rightarrow> number" where
  "round_double x =
     (if x = 0 then Fin 0
      else
        let q = max (ilog2 \<bar>x\<bar> - 52) (- 1074);
            y = of_int (round_even (x / pow2 q)) * pow2 q
        in if 1024 \<le> ilog2 \<bar>y\<bar> then (if 0 < x then PInf else NInf) else Fin y)"

text \<open>
  The operators of the code: \<^verbatim>\<open>+\<close>, \<^verbatim>\<open>-\<close>, \<^verbatim>\<open>*\<close>, \<^verbatim>\<open>/\<close> round the exact result; an
  operation without a value (\<^verbatim>\<open>Infinity - Infinity\<close>, \<^verbatim>\<open>Infinity / Infinity\<close>,
  \<^verbatim>\<open>0 * Infinity\<close>, \<^verbatim>\<open>0 / 0\<close>) or with a \<^verbatim>\<open>NaN\<close> operand gives \<^verbatim>\<open>NaN\<close>. A comparison
  with \<^verbatim>\<open>NaN\<close> is false.
\<close>

fun num_neg :: "number \<Rightarrow> number" where
  "num_neg (Fin x) = Fin (- x)"
| "num_neg PInf = NInf"
| "num_neg NInf = PInf"
| "num_neg NaN = NaN"

fun num_add :: "number \<Rightarrow> number \<Rightarrow> number" where
  "num_add (Fin x) (Fin y) = round_double (x + y)"
| "num_add (Fin x) b = b"
| "num_add NaN b = NaN"
| "num_add PInf b = (if b = NInf \<or> b = NaN then NaN else PInf)"
| "num_add NInf b = (if b = PInf \<or> b = NaN then NaN else NInf)"

definition num_sub :: "number \<Rightarrow> number \<Rightarrow> number" where
  "num_sub a b = num_add a (num_neg b)"

fun is_neg :: "number \<Rightarrow> bool" where
  "is_neg (Fin x) = (x < 0)"
| "is_neg NInf = True"
| "is_neg b = False"

fun num_mul :: "number \<Rightarrow> number \<Rightarrow> number" where
  "num_mul (Fin x) (Fin y) = round_double (x * y)"
| "num_mul NaN b = NaN"
| "num_mul a NaN = NaN"
| "num_mul a b =
     (if a = Fin 0 \<or> b = Fin 0 then NaN else if is_neg a = is_neg b then PInf else NInf)"

fun num_div :: "number \<Rightarrow> number \<Rightarrow> number" where
  "num_div (Fin x) (Fin y) =
     (if y = 0 then (if x = 0 then NaN else if 0 < x then PInf else NInf)
      else round_double (x / y))"
| "num_div NaN b = NaN"
| "num_div a NaN = NaN"
| "num_div (Fin x) b = Fin 0"
| "num_div a (Fin y) = (if is_neg a = (y < 0) then PInf else NInf)"
| "num_div a b = NaN"

fun num_lt :: "number \<Rightarrow> number \<Rightarrow> bool" where
  "num_lt (Fin x) (Fin y) = (x < y)"
| "num_lt NaN b = False"
| "num_lt a NaN = False"
| "num_lt a PInf = (a \<noteq> PInf)"
| "num_lt NInf b = (b \<noteq> NInf)"
| "num_lt a b = False"

fun num_le :: "number \<Rightarrow> number \<Rightarrow> bool" where
  "num_le (Fin x) (Fin y) = (x \<le> y)"
| "num_le NaN b = False"
| "num_le a NaN = False"
| "num_le a PInf = True"
| "num_le NInf b = True"
| "num_le a b = False"

definition num_gt :: "number \<Rightarrow> number \<Rightarrow> bool" where
  "num_gt a b = num_lt b a"

definition num_ge :: "number \<Rightarrow> number \<Rightarrow> bool" where
  "num_ge a b = num_le b a"

subsection \<open>Records\<close>

record Material =
  mid :: string
  name :: string
  stockLengthMm :: number

record Demand =
  did :: string
  project :: string
  materialId :: string
  lengthMm :: number

record Pipe =
  cuts :: "Demand list"
  remainingMm :: number
  pipeStockLengthMm :: number
  usableMm :: number

text \<open>
  \<^verbatim>\<open>CutPlan = Record<string, Pipe[]>\<close>: the own properties of the plan object in the order
  of their creation. \<open>Object_entries\<close> below gives the order in which JavaScript enumerates
  them.

  An assignment \<^verbatim>\<open>obj[k] = v\<close> to a plain object creates the own property \<open>k\<close> or
  overwrites it in place, for every key but one: \<^verbatim>\<open>__proto__\<close> is an accessor of
  \<^verbatim>\<open>Object.prototype\<close>, whose setter makes the object \<open>v\<close> the prototype of \<open>obj\<close> and
  creates no own property.
\<close>

type_synonym CutPlan = "(string \<times> Pipe list) list"

definition set_property :: "string \<Rightarrow> 'a \<Rightarrow> (string \<times> 'a) list \<Rightarrow> (string \<times> 'a) list" where
  "set_property k v obj = (if k = ''__proto__'' then obj else AList.update k v obj)"

definition FIXED_WASTE :: number where
  "FIXED_WASTE = Fin 110"

definition KERF :: number where
  "KERF = Fin 2"

section \<open>The allocator\<close>

text \<open>
  \<^verbatim>\<open>new Map(materials.map(m => [m.id, m]))\<close>: the entries are set one after the other, so
  of two materials with one id the later one is found.
\<close>

definition materialMap :: "Material list \<Rightarrow> string \<Rightarrow> Material option" where
  "materialMap materials = fold (\<lambda>m mp. mp(mid m \<mapsto> m)) materials Map.empty"

text \<open>
  The first loop of \<^verbatim>\<open>optimize\<close>. A JavaScript \<^verbatim>\<open>Map\<close> iterates in the order in which
  its keys were first set, and setting a key that is present keeps its place: an association
  list with \<^const>\<open>AList.update\<close>.
\<close>

fun group_demands ::
  "Demand list \<Rightarrow> (string \<times> Demand list) list \<Rightarrow> (string \<times> Demand list) list" where
  "group_demands [] grouped = grouped"
| "group_demands (d # demands) grouped =
     (let list = (case map_of grouped (materialId d) of None \<Rightarrow> [] | Some l \<Rightarrow> l)
      in group_demands demands (AList.update (materialId d) (list @ [d]) grouped))"

text \<open>
  \<^verbatim>\<open>[...pieces].sort((a, b) => b.lengthMm - a.lengthMm)\<close>. \<^verbatim>\<open>Array.prototype.sort\<close> is
  stable; it moves \<open>b\<close> before an earlier \<open>a\<close> only when the comparator is positive on
  \<open>(a, b)\<close>, and takes a comparator value \<^verbatim>\<open>NaN\<close> as \<open>0\<close>. The sort is given as the stable
  insertion sort. The algorithm is the engine's choice; \<open>stable_desc\<close> below states what
  every engine guarantees, and for lengths without \<^verbatim>\<open>NaN\<close> (a consistent comparator) no
  other result meets it. With a \<^verbatim>\<open>NaN\<close> length the order is left to the engine.
\<close>

definition compare_desc :: "Demand \<Rightarrow> Demand \<Rightarrow> number" where
  "compare_desc a b = num_sub (lengthMm b) (lengthMm a)"

fun insert_desc :: "Demand \<Rightarrow> Demand list \<Rightarrow> Demand list" where
  "insert_desc a [] = [a]"
| "insert_desc a (b # rest) =
     (if num_gt (compare_desc a b) (Fin 0) then b # insert_desc a rest else a # b # rest)"

definition sort_desc :: "Demand list \<Rightarrow> Demand list" where
  "sort_desc pieces = foldr insert_desc pieces []"

text \<open>
  The scan for the best bin (the \<^verbatim>\<open>for (let i = 0; ...)\<close> loop); \<open>bestRemaining\<close> starts
  at \<^verbatim>\<open>Infinity\<close>.
\<close>

fun scan :: "number \<Rightarrow> Pipe list \<Rightarrow> nat \<Rightarrow> int \<Rightarrow> number \<Rightarrow> int" where
  "scan needed [] i bestIdx bestRemaining = bestIdx"
| "scan needed (pipe # rest) i bestIdx bestRemaining =
     (if num_ge (remainingMm pipe) needed \<and> num_lt (remainingMm pipe) bestRemaining
      then scan needed rest (i + 1) (int i) (remainingMm pipe)
      else scan needed rest (i + 1) bestIdx bestRemaining)"

text \<open>The body of the loop over the sorted pieces: one piece is skipped or placed.\<close>

definition place :: "Material \<Rightarrow> Demand \<Rightarrow> Pipe list \<Rightarrow> Pipe list" where
  "place mat piece pipes =
     (let usable = num_sub (stockLengthMm mat) FIXED_WASTE in
      if num_gt (lengthMm piece) usable then pipes
      else
        let needed = num_add (lengthMm piece) KERF;
            bestIdx = scan needed pipes 0 (- 1) PInf
        in if bestIdx \<ge> 0
           then pipes[nat bestIdx := (pipes ! nat bestIdx)
                  \<lparr>cuts := cuts (pipes ! nat bestIdx) @ [piece],
                   remainingMm := num_sub (remainingMm (pipes ! nat bestIdx)) needed\<rparr>]
           else pipes @ [\<lparr>cuts = [piece], remainingMm = num_sub usable needed,
                          pipeStockLengthMm = stockLengthMm mat, usableMm = usable\<rparr>])"

definition pack :: "Material \<Rightarrow> Demand list \<Rightarrow> Pipe list \<Rightarrow> Pipe list" where
  "pack mat pieces pipes = fold (place mat) pieces pipes"

text \<open>Remove the trailing kerf from the last cut on each pipe.\<close>

definition refund :: "Pipe \<Rightarrow> Pipe" where
  "refund pipe =
     (if length (cuts pipe) > 0 then pipe\<lparr>remainingMm := num_add (remainingMm pipe) KERF\<rparr>
      else pipe)"

definition packMaterial :: "Material \<Rightarrow> Demand list \<Rightarrow> Pipe list" where
  "packMaterial mat pieces = map refund (pack mat (sort_desc pieces) [])"

text \<open>The loop over \<open>grouped\<close>, with the assignment \<^verbatim>\<open>plan[materialId] = pipes\<close>.\<close>

fun plan_loop ::
  "(string \<Rightarrow> Material option) \<Rightarrow> (string \<times> Demand list) list \<Rightarrow> CutPlan \<Rightarrow> CutPlan" where
  "plan_loop mm [] plan = plan"
| "plan_loop mm ((matId, pieces) # rest) plan =
     (case mm matId of
        None \<Rightarrow> plan_loop mm rest plan
      | Some mat \<Rightarrow> plan_loop mm rest (set_property matId (packMaterial mat pieces) plan))"

definition optimize :: "Material list \<Rightarrow> Demand list \<Rightarrow> CutPlan" where
  "optimize materials demands =
     plan_loop (materialMap materials) (group_demands demands []) []"

text \<open>
  The allocator with the sort of the engine as a parameter: \<open>optimize\<close> is
  \<open>optimize_with sort_desc\<close>.
\<close>

definition packMaterial_with ::
  "(Demand list \<Rightarrow> Demand list) \<Rightarrow> Material \<Rightarrow> Demand list \<Rightarrow> Pipe list" where
  "packMaterial_with srt mat pieces = map refund (pack mat (srt pieces) [])"

fun plan_loop_with ::
  "(Demand list \<Rightarrow> Demand list) \<Rightarrow> (string \<Rightarrow> Material option) \<Rightarrow>
   (string \<times> Demand list) list \<Rightarrow> CutPlan \<Rightarrow> CutPlan" where
  "plan_loop_with srt mm [] plan = plan"
| "plan_loop_with srt mm ((matId, pieces) # rest) plan =
     (case mm matId of
        None \<Rightarrow> plan_loop_with srt mm rest plan
      | Some mat \<Rightarrow>
          plan_loop_with srt mm rest (set_property matId (packMaterial_with srt mat pieces) plan))"

definition optimize_with ::
  "(Demand list \<Rightarrow> Demand list) \<Rightarrow> Material list \<Rightarrow> Demand list \<Rightarrow> CutPlan" where
  "optimize_with srt materials demands =
     plan_loop_with srt (materialMap materials) (group_demands demands []) []"

section \<open>Strings built from numbers\<close>

text \<open>
  The source builds its \<^verbatim>\<open>Map\<close> keys with template literals that interpolate numbers
  (\<^verbatim>\<open>`${d.lengthMm}`\<close>). A string of the program is a list of tokens: a character, or the
  rendering of a number, kept as the number. JavaScript renders two different numbers
  differently (the shortest decimal that reads back as the double, \<^verbatim>\<open>Infinity\<close>,
  \<^verbatim>\<open>NaN\<close>), and a rendering holds no \<^verbatim>\<open>|\<close> and no blank, so two strings built below are
  equal exactly when their token lists are.
\<close>

datatype tok = Ch char | Num number

type_synonym jsstring = "tok list"

definition str :: "string \<Rightarrow> jsstring" where
  "str s = map Ch s"

text \<open>\<^verbatim>\<open>Array.prototype.join\<close>.\<close>

fun join :: "jsstring list \<Rightarrow> jsstring \<Rightarrow> jsstring" where
  "join [] sep = []"
| "join [s] sep = s"
| "join (s # t # rest) sep = s @ sep @ join (t # rest) sep"

section \<open>Helpers\<close>

text \<open>
  \<^verbatim>\<open>parseFloat(m.toFixed(3))\<close>. For a finite \<open>m\<close> below \<open>10^21\<close> in magnitude,
  \<^verbatim>\<open>toFixed(3)\<close> prints \<open>n / 1000\<close> for the integer \<open>n\<close> with \<open>n / 1000\<close> nearest to the
  absolute value of the double (the larger \<open>n\<close> of two), with the sign; \<^verbatim>\<open>parseFloat\<close>
  reads the decimal back as the nearest double. Any other \<open>m\<close> is printed as it is and
  read back unchanged.
\<close>

definition toFixed3 :: "number \<Rightarrow> number" where
  "toFixed3 m =
     (case m of
        Fin x \<Rightarrow>
          if 10 ^ 21 \<le> \<bar>x\<bar> then Fin x
          else if x < 0 then num_neg (round_double (of_int \<lfloor>- x * 1000 + 1 / 2\<rfloor> / 1000))
          else round_double (of_int \<lfloor>x * 1000 + 1 / 2\<rfloor> / 1000)
      | _ \<Rightarrow> m)"

definition formatMm :: "number \<Rightarrow> jsstring" where
  "formatMm mm =
     (if num_ge mm (Fin 1000)
      then (let m = num_div mm (Fin 1000) in [Num (toFixed3 m)] @ str '' m'')
      else [Num mm] @ str '' mm'')"

record AggregatedDemand =
  key :: jsstring
  aggProject :: string
  aggMaterialId :: string
  aggLengthMm :: number
  aggCount :: nat
  ids :: "string list"

definition demand_key :: "Demand \<Rightarrow> jsstring" where
  "demand_key d =
     str (materialId d) @ str ''|'' @ str (project d) @ str ''|'' @ [Num (lengthMm d)]"

text \<open>
  The loop of \<^verbatim>\<open>aggregateDemands\<close> over its \<^verbatim>\<open>Map\<close>. The source mutates the group it
  finds; here the entry is replaced in place.
\<close>

fun aggregate_loop ::
  "Demand list \<Rightarrow> (jsstring \<times> AggregatedDemand) list \<Rightarrow> (jsstring \<times> AggregatedDemand) list" where
  "aggregate_loop [] mp = mp"
| "aggregate_loop (d # demands) mp =
     (let k = demand_key d in
      case map_of mp k of
        Some existing \<Rightarrow>
          aggregate_loop demands
            (AList.update k
               (existing\<lparr>aggCount := aggCount existing + 1, ids := ids existing @ [did d]\<rparr>) mp)
      | None \<Rightarrow>
          aggregate_loop demands
            (AList.update k
               \<lparr>key = k, aggProject = project d, aggMaterialId = materialId d,
                aggLengthMm = lengthMm d, aggCount = 1, ids = [did d]\<rparr> mp))"

definition aggregateDemands :: "Demand list \<Rightarrow> AggregatedDemand list" where
  "aggregateDemands demands = map snd (aggregate_loop demands [])"

section \<open>Plan metrics (ResultSection)\<close>

text \<open>
  \<^verbatim>\<open>Object.entries(results)\<close>: the keys that are array indices (canonical decimal numerals
  below \<open>2^32 - 1\<close>) come first, in ascending numeric order; the other keys follow in the
  order of their creation.
\<close>

definition is_digit :: "char \<Rightarrow> bool" where
  "is_digit c = (c \<in> set ''0123456789'')"

definition digit_value :: "char \<Rightarrow> int" where
  "digit_value c = int (length (takeWhile (\<lambda>d. d \<noteq> c) ''0123456789''))"

definition numeric_value :: "string \<Rightarrow> int" where
  "numeric_value s = fold (\<lambda>c n. 10 * n + digit_value c) s 0"

definition is_array_index :: "string \<Rightarrow> bool" where
  "is_array_index s =
     (s \<noteq> [] \<and> list_all is_digit s \<and> (if hd s = CHR ''0'' then s = ''0'' else True) \<and>
      numeric_value s < 2 ^ 32 - 1)"

definition Object_entries :: "(string \<times> 'a) list \<Rightarrow> (string \<times> 'a) list" where
  "Object_entries obj =
     sort_key (\<lambda>e. numeric_value (fst e)) (filter (\<lambda>e. is_array_index (fst e)) obj) @
     filter (\<lambda>e. \<not> is_array_index (fst e)) obj"

record Stats =
  totalPipes :: nat
  totalStockMm :: number
  totalUsedMm :: number
  totalWasteMm :: number

text \<open>\<^verbatim>\<open>pipe.cuts.reduce((sum, c) => sum + c.lengthMm, 0)\<close>\<close>

definition cutSum :: "Pipe \<Rightarrow> number" where
  "cutSum pipe = fold (\<lambda>c acc. num_add acc (lengthMm c)) (cuts pipe) (Fin 0)"

definition add_pipe :: "Pipe \<Rightarrow> Stats \<Rightarrow> Stats" where
  "add_pipe pipe st =
     st\<lparr>totalStockMm := num_add (totalStockMm st) (pipeStockLengthMm pipe),
        totalUsedMm := num_add (totalUsedMm st) (cutSum pipe),
        totalWasteMm := num_add (totalWasteMm st) (remainingMm pipe)\<rparr>"

fun stats_loop :: "(string \<Rightarrow> Material option) \<Rightarrow> CutPlan \<Rightarrow> Stats \<Rightarrow> Stats" where
  "stats_loop mm [] st = st"
| "stats_loop mm ((matId, pipes) # rest) st =
     (case mm matId of
        None \<Rightarrow> stats_loop mm rest st
      | Some mat \<Rightarrow>
          stats_loop mm rest (fold add_pipe pipes (st\<lparr>totalPipes := totalPipes st + length pipes\<rparr>)))"

definition computeStats :: "Material list \<Rightarrow> CutPlan \<Rightarrow> Stats" where
  "computeStats materials results =
     stats_loop (materialMap materials) (Object_entries results)
       \<lparr>totalPipes = 0, totalStockMm = Fin 0, totalUsedMm = Fin 0, totalWasteMm = Fin 0\<rparr>"

definition efficiency :: "Stats \<Rightarrow> number" where
  "efficiency st =
     (if num_gt (totalStockMm st) (Fin 0)
      then num_mul (num_div (totalUsedMm st) (totalStockMm st)) (Fin 100)
      else Fin 0)"

text \<open>The too-long pieces: the filter, and its aggregation.\<close>

definition tooLong :: "Material list \<Rightarrow> Demand list \<Rightarrow> Demand list" where
  "tooLong materials demands =
     filter (\<lambda>d. case materialMap materials (materialId d) of
                   None \<Rightarrow> False
                 | Some mat \<Rightarrow> num_gt (lengthMm d) (num_sub (stockLengthMm mat) FIXED_WASTE))
       demands"

definition tooLongAgg :: "Material list \<Rightarrow> Demand list \<Rightarrow> AggregatedDemand list" where
  "tooLongAgg materials demands = aggregateDemands (tooLong materials demands)"

text \<open>The cut summary: the pipes of one material grouped by their pattern.\<close>

definition pattern_key :: "Pipe \<Rightarrow> jsstring" where
  "pattern_key pipe = join (map (\<lambda>c. formatMm (lengthMm c)) (cuts pipe)) (str '' + '')"

fun pattern_loop :: "Pipe list \<Rightarrow> (jsstring \<times> nat) list \<Rightarrow> (jsstring \<times> nat) list" where
  "pattern_loop [] patternCounts = patternCounts"
| "pattern_loop (pipe # pipes) patternCounts =
     (let k = pattern_key pipe in
      pattern_loop pipes
        (AList.update k ((case map_of patternCounts k of None \<Rightarrow> 0 | Some c \<Rightarrow> c) + 1)
           patternCounts))"

definition patternCounts :: "Pipe list \<Rightarrow> (jsstring \<times> nat) list" where
  "patternCounts pipes = pattern_loop pipes []"

fun summary_loop ::
  "(string \<Rightarrow> Material option) \<Rightarrow> CutPlan \<Rightarrow> (string \<times> jsstring \<times> nat) list \<Rightarrow>
   (string \<times> jsstring \<times> nat) list" where
  "summary_loop mm [] summary = summary"
| "summary_loop mm ((matId, pipes) # rest) summary =
     (case mm matId of
        None \<Rightarrow> summary_loop mm rest summary
      | Some mat \<Rightarrow>
          if length pipes = 0 then summary_loop mm rest summary
          else summary_loop mm rest
                 (summary @ map (\<lambda>(pattern, n). (name mat, pattern, n)) (patternCounts pipes)))"

definition cutSummary :: "Material list \<Rightarrow> CutPlan \<Rightarrow> (string \<times> jsstring \<times> nat) list" where
  "cutSummary materials results = summary_loop (materialMap materials) (Object_entries results) []"

section \<open>Auxiliary notions\<close>

text \<open>
  The definitions of this section are not part of the program. They name what the theorems
  speak about (the value of a number, the two effects of a placement, the cuts of a plan,
  the first occurrences in a list) and the invariants of the loops.
\<close>

subsection \<open>Values\<close>

text \<open>
  The rational that a finite number denotes. A length is a whole number of millimetres when
  it is a positive integer, here of at most \<open>2^50\<close>: on such lengths the sums and
  differences of the allocator are integers below \<open>2^53\<close>, which the doubles hold exactly.
\<close>

definition is_fin :: "number \<Rightarrow> bool" where
  "is_fin n = (case n of Fin x \<Rightarrow> True | _ \<Rightarrow> False)"

definition val :: "number \<Rightarrow> rat" where
  "val n = (case n of Fin x \<Rightarrow> x | _ \<Rightarrow> 0)"

definition int_mm :: "number \<Rightarrow> int" where
  "int_mm n = \<lfloor>val n\<rfloor>"

definition whole_mm :: "number \<Rightarrow> bool" where
  "whole_mm n = (n = Fin (of_int (int_mm n)) \<and> 0 < int_mm n \<and> int_mm n \<le> 2 ^ 50)"

definition whole_lengths :: "Material list \<Rightarrow> Demand list \<Rightarrow> bool" where
  "whole_lengths ms ds =
     (list_all (\<lambda>m. whole_mm (stockLengthMm m)) ms \<and> list_all (\<lambda>d. whole_mm (lengthMm d)) ds)"

subsection \<open>Sorting\<close>

text \<open>
  What \<^verbatim>\<open>Array.prototype.sort\<close> guarantees of its result \<open>ys\<close> for the array \<open>xs\<close> and the
  comparator of \<open>optimize\<close>: the elements are those of \<open>xs\<close>, no element stands before one
  on which the comparator is positive, and the elements on which the comparator is \<open>0\<close>
  keep their order.
\<close>

definition stable_desc :: "Demand list \<Rightarrow> Demand list \<Rightarrow> bool" where
  "stable_desc xs ys =
     (mset ys = mset xs \<and>
      sorted_wrt (\<lambda>a b. \<not> num_gt (compare_desc a b) (Fin 0)) ys \<and>
      list_all (\<lambda>a. filter (\<lambda>b. compare_desc a b = Fin 0) ys =
                     filter (\<lambda>b. compare_desc a b = Fin 0) xs) xs)"

subsection \<open>Placements\<close>

text \<open>A piece fits a bin when the bin has room for what the piece needs.\<close>

definition fits :: "number \<Rightarrow> Pipe \<Rightarrow> bool" where
  "fits needed pipe = num_ge (remainingMm pipe) needed"


text \<open>The bin after a piece was pushed to it, and the bin that a piece opens.\<close>

definition add_cut :: "Demand \<Rightarrow> Pipe \<Rightarrow> Pipe" where
  "add_cut piece pipe =
     pipe\<lparr>cuts := cuts pipe @ [piece],
          remainingMm := num_sub (remainingMm pipe) (num_add (lengthMm piece) KERF)\<rparr>"

definition new_pipe :: "Material \<Rightarrow> Demand \<Rightarrow> Pipe" where
  "new_pipe mat piece =
     \<lparr>cuts = [piece],
      remainingMm =
        num_sub (num_sub (stockLengthMm mat) FIXED_WASTE) (num_add (lengthMm piece) KERF),
      pipeStockLengthMm = stockLengthMm mat,
      usableMm = num_sub (stockLengthMm mat) FIXED_WASTE\<rparr>"

text \<open>
  The invariant of the bins of a material during packing, for whole millimetres: a bin has
  a cut, it carries the lengths of its material, every cut is charged its length and a
  kerf, and \<open>remainingMm\<close> is not below \<open>- KERF\<close> (not below 0 once a second piece was
  added).
\<close>

definition bin_ok :: "Material \<Rightarrow> Pipe \<Rightarrow> bool" where
  "bin_ok mat p =
     (cuts p \<noteq> [] \<and> pipeStockLengthMm p = stockLengthMm mat \<and>
      usableMm p = Fin (of_int (int_mm (stockLengthMm mat) - 110)) \<and>
      list_all (\<lambda>c. whole_mm (lengthMm c)) (cuts p) \<and>
      remainingMm p =
        Fin (of_int (int_mm (stockLengthMm mat) - 110 -
                     sum_list (map (\<lambda>c. int_mm (lengthMm c) + 2) (cuts p)))) \<and>
      - 2 \<le> int_mm (remainingMm p) \<and>
      (length (cuts p) > 1 \<longrightarrow> 0 \<le> int_mm (remainingMm p)))"

subsection \<open>Plans\<close>

text \<open>
  The cuts of a list of bins, the bins of a plan and the cuts of a plan, each in the order
  of the plan.
\<close>

definition all_cuts :: "Pipe list \<Rightarrow> Demand list" where
  "all_cuts pipes = concat (map cuts pipes)"

definition all_bins :: "CutPlan \<Rightarrow> Pipe list" where
  "all_bins plan = concat (map snd plan)"

definition plan_cuts :: "CutPlan \<Rightarrow> Demand list" where
  "plan_cuts plan = concat (map (\<lambda>e. all_cuts (snd e)) plan)"

text \<open>
  The loop skips a piece that it finds longer than the usable length of the material (the
  test of line 76, in the arithmetic of the code). A demand fits when its material is known
  and it is not skipped; it is assignable when, besides, the bins of its material are
  stored in the plan.
\<close>

definition skipped :: "Material \<Rightarrow> Demand \<Rightarrow> bool" where
  "skipped mat d = num_gt (lengthMm d) (num_sub (stockLengthMm mat) FIXED_WASTE)"

definition fitting :: "(string \<Rightarrow> Material option) \<Rightarrow> Demand \<Rightarrow> bool" where
  "fitting mm d = (case mm (materialId d) of None \<Rightarrow> False | Some mat \<Rightarrow> \<not> skipped mat d)"

definition assignable :: "(string \<Rightarrow> Material option) \<Rightarrow> Demand \<Rightarrow> bool" where
  "assignable mm d = (fitting mm d \<and> materialId d \<noteq> ''__proto__'')"

text \<open>
  The invariant of \<open>grouped\<close>: every material id is a key once, and the demands under a key
  are demands of that material.
\<close>

definition keyed :: "(string \<times> Demand list) list \<Rightarrow> bool" where
  "keyed g = (distinct (map fst g) \<and> (\<forall>(k, l) \<in> set g. \<forall>d \<in> set l. materialId d = k))"

text \<open>What the loop over \<open>grouped\<close> adds to a plan that has none of its keys.\<close>

fun planned :: "(string \<Rightarrow> Material option) \<Rightarrow> (string \<times> Demand list) list \<Rightarrow> CutPlan" where
  "planned mm [] = []"
| "planned mm ((k, pieces) # rest) =
     (case mm k of None \<Rightarrow> planned mm rest
      | Some mat \<Rightarrow>
          if k = ''__proto__'' then planned mm rest
          else (k, packMaterial mat pieces) # planned mm rest)"

subsection \<open>Statistics\<close>

text \<open>
  For whole millimetres: the lengths of a bin are integers, the cuts are within the stock,
  and the stock is at most \<open>B\<close>; the totals after \<open>n\<close> bins are integers, and the used
  length is within the stock, which is at most \<open>n * B\<close>.
\<close>

definition pipe_within :: "int \<Rightarrow> Pipe \<Rightarrow> bool" where
  "pipe_within B p =
     (cutSum p = Fin (of_int (int_mm (cutSum p))) \<and>
      pipeStockLengthMm p = Fin (of_int (int_mm (pipeStockLengthMm p))) \<and>
      remainingMm p = Fin (of_int (int_mm (remainingMm p))) \<and>
      0 \<le> int_mm (cutSum p) \<and> int_mm (cutSum p) \<le> int_mm (pipeStockLengthMm p) \<and>
      0 \<le> int_mm (remainingMm p) \<and> int_mm (remainingMm p) \<le> int_mm (pipeStockLengthMm p) \<and>
      int_mm (pipeStockLengthMm p) \<le> B)"

definition stats_within :: "int \<Rightarrow> nat \<Rightarrow> Stats \<Rightarrow> bool" where
  "stats_within B n st =
     (totalStockMm st = Fin (of_int (int_mm (totalStockMm st))) \<and>
      totalUsedMm st = Fin (of_int (int_mm (totalUsedMm st))) \<and>
      totalWasteMm st = Fin (of_int (int_mm (totalWasteMm st))) \<and>
      0 \<le> int_mm (totalUsedMm st) \<and> int_mm (totalUsedMm st) \<le> int_mm (totalStockMm st) \<and>
      0 \<le> int_mm (totalWasteMm st) \<and> int_mm (totalWasteMm st) \<le> int_mm (totalStockMm st) \<and>
      int_mm (totalStockMm st) \<le> int n * B)"

subsection \<open>Groups\<close>

text \<open>
  The distinct elements of a list in the order of their first occurrence
  (\<^const>\<open>remdups\<close> keeps the last occurrence of an element).
\<close>

definition first_seen :: "'a list \<Rightarrow> 'a list" where
  "first_seen xs = rev (remdups (rev xs))"

text \<open>
  The triple that the groups are meant to distinguish, of a demand and of a group, and the
  key of a triple.
\<close>

definition triple :: "Demand \<Rightarrow> string \<times> string \<times> number" where
  "triple d = (materialId d, project d, lengthMm d)"

definition agg_triple :: "AggregatedDemand \<Rightarrow> string \<times> string \<times> number" where
  "agg_triple g = (aggMaterialId g, aggProject g, aggLengthMm g)"

definition key_of :: "string \<times> string \<times> number \<Rightarrow> jsstring" where
  "key_of t = (case t of (a, p, l) \<Rightarrow> str a @ str ''|'' @ str p @ str ''|'' @ [Num l])"

text \<open>
  The group of a key after the demands \<open>ds\<close>: its fields are those of the first demand with
  the key; it counts and lists the demands with the key.
\<close>

definition group_of :: "Demand list \<Rightarrow> jsstring \<Rightarrow> AggregatedDemand" where
  "group_of ds k =
     (let same = filter (\<lambda>d. demand_key d = k) ds; d0 = hd same
      in \<lparr>key = k, aggProject = project d0, aggMaterialId = materialId d0,
          aggLengthMm = lengthMm d0, aggCount = length same, ids = map did same\<rparr>)"

text \<open>The body of the loop of \<open>aggregate_loop\<close>.\<close>

definition aggregate_step ::
  "Demand \<Rightarrow> (jsstring \<times> AggregatedDemand) list \<Rightarrow> (jsstring \<times> AggregatedDemand) list" where
  "aggregate_step d mp =
     (case map_of mp (demand_key d) of
        Some existing \<Rightarrow>
          AList.update (demand_key d)
            (existing\<lparr>aggCount := aggCount existing + 1, ids := ids existing @ [did d]\<rparr>) mp
      | None \<Rightarrow>
          AList.update (demand_key d)
            \<lparr>key = demand_key d, aggProject = project d, aggMaterialId = materialId d,
             aggLengthMm = lengthMm d, aggCount = 1, ids = [did d]\<rparr> mp)"

subsection \<open>Patterns\<close>

text \<open>
  A label is what \<open>formatMm\<close> returns: a number, a blank, and the unit. In a joined key a
  label is followed by nothing or by the separator, which starts with a blank.
\<close>

definition label :: "jsstring \<Rightarrow> bool" where
  "label s = ((\<exists>u. s = [Num u, Ch CHR '' '', Ch CHR ''m'']) \<or>
              (\<exists>u. s = [Num u, Ch CHR '' '', Ch CHR ''m'', Ch CHR ''m'']))"

definition after_first :: "jsstring list \<Rightarrow> jsstring \<Rightarrow> jsstring" where
  "after_first xs sep = (if xs = [] then [] else sep @ join xs sep)"

text \<open>The labels of the cuts of a bin, in their order.\<close>

definition formatted :: "Pipe \<Rightarrow> jsstring list" where
  "formatted pipe = map (\<lambda>c. formatMm (lengthMm c)) (cuts pipe)"

text \<open>
  A length that \<open>formatMm\<close> shows without loss: a whole number of millimetres, or one that
  is not 1000 mm or more (which is shown as it is).
\<close>

definition exact_mm :: "number \<Rightarrow> bool" where
  "exact_mm n = (whole_mm n \<or> \<not> num_ge n (Fin 1000))"

text \<open>
  The body of the loop of \<open>pattern_loop\<close>, the number of bins with a key, and the rows that
  one entry of the plan adds to the summary.
\<close>

definition pattern_step :: "Pipe \<Rightarrow> (jsstring \<times> nat) list \<Rightarrow> (jsstring \<times> nat) list" where
  "pattern_step pipe pc =
     AList.update (pattern_key pipe)
       ((case map_of pc (pattern_key pipe) of None \<Rightarrow> 0 | Some c \<Rightarrow> c) + 1) pc"

definition pattern_count :: "Pipe list \<Rightarrow> jsstring \<Rightarrow> nat" where
  "pattern_count pipes k = length (filter (\<lambda>p. pattern_key p = k) pipes)"

definition summary_rows ::
  "(string \<Rightarrow> Material option) \<Rightarrow> string \<times> Pipe list \<Rightarrow> (string \<times> jsstring \<times> nat) list" where
  "summary_rows mm e =
     (case mm (fst e) of None \<Rightarrow> []
      | Some mat \<Rightarrow> map (\<lambda>(pattern, n). (name mat, pattern, n)) (patternCounts (snd e)))"

subsection \<open>Sample inputs\<close>

text \<open>
  The materials and demands at which the theorems below are evaluated: a material with its
  id and stock length, a demand with its id, the id of its material and its length.
\<close>

definition Mat :: "string \<Rightarrow> number \<Rightarrow> Material" where
  "Mat i stock = \<lparr>mid = i, name = ''Rohr'', stockLengthMm = stock\<rparr>"

definition Dem :: "string \<Rightarrow> string \<Rightarrow> number \<Rightarrow> Demand" where
  "Dem i m len = \<lparr>did = i, project = ''P'', materialId = m, lengthMm = len\<rparr>"

section \<open>Properties of the numbers\<close>

subsection \<open>Powers of two and the binary exponent\<close>

lemma pow2_powi: "pow2 e = 2 powi e"
  by (simp add: pow2_def power_int_def inverse_eq_divide power_one_over)

lemma pow2_pos [simp]: "0 < pow2 e"
  by (simp add: pow2_def)

lemma pow2_add: "pow2 (a + b) = pow2 a * pow2 b"
  by (simp add: pow2_powi power_int_add)

lemma pow2_diff: "pow2 (a - b) = pow2 a / pow2 b"
  by (simp add: pow2_powi power_int_diff)

lemma pow2_mono: "a \<le> b \<Longrightarrow> pow2 a \<le> pow2 b"
  by (simp add: pow2_powi power_int_increasing)

lemma pow2_less: "a < b \<Longrightarrow> pow2 a < pow2 b"
  by (simp add: pow2_powi power_int_strict_increasing)

lemma pow2_le_D: "pow2 a \<le> pow2 b \<Longrightarrow> a \<le> b"
  using pow2_less [of b a] by (cases "a \<le> b") auto

lemma pow2_less_D: "pow2 a < pow2 b \<Longrightarrow> a < b"
  using pow2_mono [of b a] by (cases "a < b") auto

lemma pow2_nat: "pow2 (int n) = 2 ^ n"
  by (simp add: pow2_def)

lemma bitlen_pow2_bounds:
  assumes "0 < p"
  shows "pow2 (bitlen p - 1) \<le> of_int p" and "of_int p < pow2 (bitlen p)"
proof -
  from bitlen_bounds [OF assms]
  have lo: "2 ^ nat (bitlen p - 1) \<le> p" and hi: "p < 2 ^ nat (bitlen p)" by simp_all
  have b1: "1 \<le> bitlen p" using assms by (simp add: bitlen_alt_def)
  have "(of_int (2 ^ nat (bitlen p - 1)) :: rat) \<le> of_int p" using lo by (simp only: of_int_le_iff)
  then show "pow2 (bitlen p - 1) \<le> of_int p" using b1 by (simp add: pow2_def)
  have "(of_int p :: rat) < of_int (2 ^ nat (bitlen p))" using hi by (simp only: of_int_less_iff)
  then show "of_int p < pow2 (bitlen p)" using b1 by (simp add: pow2_def)
qed

lemma ilog2_bounds:
  assumes "0 < x"
  shows "pow2 (ilog2 x) \<le> x" and "x < pow2 (ilog2 x + 1)"
proof -
  obtain p q where pq: "quotient_of x = (p, q)" by (cases "quotient_of x")
  then have q: "0 < q" by (rule quotient_of_denom_pos)
  from pq have x: "x = of_int p / of_int q" by (rule quotient_of_div)
  with assms q have p: "0 < p" by (simp add: zero_less_divide_iff)
  note P = bitlen_pow2_bounds [OF p] and Q = bitlen_pow2_bounds [OF q]
  let ?e = "bitlen p - bitlen q"
  have qpos: "(0::rat) < of_int q" using q by simp
  have ppos: "(0::rat) < of_int p" using p by simp
  have lo: "pow2 (?e - 1) \<le> x"
  proof -
    have "pow2 (?e - 1) = pow2 (bitlen p - 1) / pow2 (bitlen q)"
      using pow2_diff [of "bitlen p - 1" "bitlen q"] by (simp add: algebra_simps)
    also have "\<dots> \<le> of_int p / pow2 (bitlen q)"
      by (rule divide_right_mono [OF P(1)]) (simp add: less_imp_le)
    also have "\<dots> \<le> of_int p / of_int q"
      by (rule divide_left_mono) (use Q(2) qpos ppos in \<open>simp_all add: less_imp_le\<close>)
    finally show ?thesis using x by simp
  qed
  have hi: "x < pow2 (?e + 1)"
  proof -
    have "x = of_int p / of_int q" by (rule x)
    also have "\<dots> < pow2 (bitlen p) / of_int q"
      by (rule divide_strict_right_mono [OF P(2) qpos])
    also have "\<dots> \<le> pow2 (bitlen p) / pow2 (bitlen q - 1)"
      by (rule divide_left_mono [OF Q(1)]) (use qpos in \<open>simp_all add: less_imp_le\<close>)
    also have "\<dots> = pow2 (?e + 1)"
      using pow2_diff [of "bitlen p" "bitlen q - 1"] by (simp add: algebra_simps)
    finally show ?thesis .
  qed
  have il: "ilog2 x = (if pow2 ?e \<le> x then ?e else ?e - 1)"
    by (simp add: ilog2_def pq Let_def)
  show "pow2 (ilog2 x) \<le> x" using lo by (simp add: il)
  show "x < pow2 (ilog2 x + 1)" using hi by (auto simp add: il)
qed

lemma ilog2_le: "0 < x \<Longrightarrow> x < pow2 k \<Longrightarrow> ilog2 x < k"
  using ilog2_bounds(1) [of x] pow2_less_D [of "ilog2 x" k] by simp

lemma ilog2_ge: "0 < x \<Longrightarrow> pow2 k \<le> x \<Longrightarrow> k \<le> ilog2 x"
proof -
  assume a: "0 < x" "pow2 k \<le> x"
  from ilog2_bounds(2) [OF a(1)] a(2) have "pow2 k < pow2 (ilog2 x + 1)" by simp
  from pow2_less_D [OF this] show ?thesis by simp
qed

lemma round_even_int [simp]: "round_even (of_int k) = k"
  by (simp add: round_even_def)

lemma round_even_le: "r \<le> of_int K \<Longrightarrow> round_even r \<le> K"
proof -
  assume a: "r \<le> of_int K"
  have f: "\<lfloor>r\<rfloor> \<le> K" using a by (simp add: floor_le_iff)
  show ?thesis
  proof (cases "r = of_int \<lfloor>r\<rfloor>")
    case True
    then have "round_even r = \<lfloor>r\<rfloor>" by (metis round_even_int)
    with f show ?thesis by simp
  next
    case False
    then have "of_int \<lfloor>r\<rfloor> < r" by (metis of_int_floor_le order.not_eq_order_implies_strict)
    with a have "of_int \<lfloor>r\<rfloor> < (of_int K :: rat)" by simp
    then have "\<lfloor>r\<rfloor> < K" by (simp only: of_int_less_iff)
    then show ?thesis by (simp add: round_even_def Let_def)
  qed
qed

lemma round_even_ge: "of_int K \<le> r \<Longrightarrow> K \<le> round_even r"
proof -
  assume "of_int K \<le> r"
  then have "K \<le> \<lfloor>r\<rfloor>" by (simp add: le_floor_iff)
  then show ?thesis by (simp add: round_even_def Let_def)
qed

lemma round_even_error: "\<bar>of_int (round_even r) - r\<bar> \<le> 1 / 2"
proof -
  have "of_int \<lfloor>r\<rfloor> \<le> r" "r < of_int \<lfloor>r\<rfloor> + 1" by linarith+
  then show ?thesis by (auto simp add: round_even_def Let_def abs_le_iff)
qed

lemma pow2_neq0 [simp]: "pow2 e \<noteq> 0"
  using pow2_pos [of e] by (simp del: pow2_pos)

lemma div_mult_cancel: "(c::rat) \<noteq> 0 \<Longrightarrow> x / c = k \<Longrightarrow> k * c = x"
  by auto

lemma diff_scale: "(c::rat) \<noteq> 0 \<Longrightarrow> m * c - x = (m - x / c) * c"
  by (simp add: field_simps)

lemma pow2_neg_int: "q \<le> 0 \<Longrightarrow> 1 / pow2 q = of_int (2 ^ nat (- q))"
  by (simp add: pow2_def)

lemma div_pow2_int:
  assumes "q \<le> 0"
  shows "of_int z / pow2 q = of_int (z * 2 ^ nat (- q))"
proof -
  have "of_int z / pow2 q = of_int z * (1 / pow2 q)" by simp
  also have "\<dots> = of_int z * of_int (2 ^ nat (- q))" by (simp only: pow2_neg_int [OF assms])
  finally show ?thesis by simp
qed

lemma ilog2_0: "ilog2 0 = - 2"
  by (simp add: ilog2_def pow2_def bitlen_alt_def)

lemma below_pow2_1024: "\<bar>y\<bar> \<le> 2 ^ 53 \<Longrightarrow> \<not> 1024 \<le> ilog2 \<bar>y\<bar>"
proof (cases "y = 0")
  case True
  then show ?thesis by (simp add: ilog2_0)
next
  case False
  assume "\<bar>y\<bar> \<le> 2 ^ 53"
  then have "\<bar>y\<bar> < pow2 54" by (simp add: pow2_def)
  from ilog2_le [OF _ this] False show ?thesis by simp
qed

lemma round_double_grid:
  assumes "x \<noteq> 0" and "x / pow2 (max (ilog2 \<bar>x\<bar> - 52) (- 1074)) = of_int k"
    and "\<bar>x\<bar> \<le> 2 ^ 53"
  shows "round_double x = Fin x"
proof -
  let ?q = "max (ilog2 \<bar>x\<bar> - 52) (- 1074)"
  have "of_int (round_even (x / pow2 ?q)) * pow2 ?q = of_int k * pow2 ?q"
    by (simp only: assms(2) round_even_int)
  also have "\<dots> = x" by (rule div_mult_cancel [OF pow2_neq0 assms(2)])
  finally have "of_int (round_even (x / pow2 ?q)) * pow2 ?q = x" .
  then show ?thesis using assms(1) below_pow2_1024 [OF assms(3)]
    by (simp add: round_double_def Let_def)
qed

lemma round_double_int:
  assumes "\<bar>z\<bar> \<le> 2 ^ 53"
  shows "round_double (of_int z) = Fin (of_int z)"
proof (cases "z = 0")
  case True
  then show ?thesis by (simp add: round_double_def)
next
  case False
  let ?x = "of_int z :: rat"
  let ?e = "ilog2 \<bar>?x\<bar>"
  have a1: "1 \<le> \<bar>?x\<bar>" using False by (simp flip: of_int_abs)
  then have a0: "0 < \<bar>?x\<bar>" by simp
  have a53: "\<bar>?x\<bar> \<le> 2 ^ 53" using assms by (simp flip: of_int_abs)
  have e0: "0 \<le> ?e" using ilog2_ge [OF a0, of 0] a1 by (simp add: pow2_def)
  have "\<bar>?x\<bar> < pow2 54" using a53 by (simp add: pow2_def)
  from ilog2_le [OF a0 this] have e53: "?e \<le> 53" by simp
  have x0: "?x \<noteq> 0" using False by simp
  show ?thesis
  proof (cases "?e \<le> 52")
    case True
    then have q: "max (?e - 52) (- 1074) = ?e - 52" "?e - 52 \<le> 0" using e0 by simp_all
    have "?x / pow2 (max (?e - 52) (- 1074)) = of_int (z * 2 ^ nat (- (?e - 52)))"
      unfolding q(1) by (rule div_pow2_int [OF q(2)])
    from round_double_grid [OF x0 this a53] show ?thesis .
  next
    case False
    with e53 have e: "?e = 53" by simp
    from ilog2_bounds(1) [OF a0] have "2 ^ 53 \<le> \<bar>?x\<bar>" by (simp add: e pow2_def)
    with a53 have ax: "\<bar>?x\<bar> = 2 ^ 53" by simp
    have "?x / 2 = of_int (z div 2)"
    proof -
      from ax have "\<bar>z\<bar> = 2 ^ 53" by (simp flip: of_int_abs)
      then have "even \<bar>z\<bar>" by simp
      then have "even z" by simp
      then show ?thesis by (auto elim!: evenE)
    qed
    moreover have "max (?e - 52) (- 1074) = 1" by (simp add: e)
    moreover have "pow2 1 = 2" by (simp add: pow2_def)
    ultimately have "?x / pow2 (max (?e - 52) (- 1074)) = of_int (z div 2)"
      by (simp only:)
    from round_double_grid [OF x0 this a53] show ?thesis .
  qed
qed

lemma num_add_int:
  "\<bar>a + b\<bar> \<le> 2 ^ 53 \<Longrightarrow> num_add (Fin (of_int a)) (Fin (of_int b)) = Fin (of_int (a + b))"
  using round_double_int [of "a + b"] by simp

lemma num_sub_int:
  "\<bar>a - b\<bar> \<le> 2 ^ 53 \<Longrightarrow> num_sub (Fin (of_int a)) (Fin (of_int b)) = Fin (of_int (a - b))"
  using round_double_int [of "a - b"] by (simp add: num_sub_def)

lemma abs_near: "\<bar>y - x\<bar> \<le> d \<Longrightarrow> 0 \<le> x \<Longrightarrow> \<bar>y\<bar> \<le> x + (d::rat)"
  by linarith

lemma round_double_range:
  assumes "0 \<le> x" and "x \<le> of_int B" and "B \<le> 2 ^ 52"
  shows "\<exists>v. round_double x = Fin v \<and> 0 \<le> v \<and> v \<le> of_int B"
proof (cases "x = 0")
  case True
  with assms show ?thesis by (simp add: round_double_def)
next
  case False
  with assms(1) have x0: "0 < x" by simp
  then have ax: "\<bar>x\<bar> = x" by simp
  let ?q = "max (ilog2 x - 52) (- 1074)"
  have B: "(of_int B :: rat) \<le> 2 ^ 52" using assms(3) by (simp flip: of_int_le_iff)
  then have "x < pow2 53" using assms(2) by (simp add: pow2_def)
  from ilog2_le [OF x0 this] have q: "?q \<le> 0" by simp
  let ?K = "B * 2 ^ nat (- ?q)"
  have "x / pow2 ?q \<le> of_int B / pow2 ?q"
    by (rule divide_right_mono [OF assms(2)]) (simp add: less_imp_le)
  then have rK: "x / pow2 ?q \<le> of_int ?K" by (simp only: div_pow2_int [OF q])
  have r0: "of_int 0 \<le> x / pow2 ?q" using x0 by (simp add: less_imp_le)
  let ?m = "round_even (x / pow2 ?q)"
  have m: "0 \<le> ?m" "?m \<le> ?K" using round_even_ge [OF r0] round_even_le [OF rK] by simp_all
  let ?y = "of_int ?m * pow2 ?q"
  have y0: "0 \<le> ?y" using m(1) by (simp add: less_imp_le)
  have "(of_int ?m :: rat) \<le> of_int ?K" using m(2) by (simp only: of_int_le_iff)
  then have "?y \<le> of_int ?K * pow2 ?q"
    by (rule mult_right_mono) (simp add: less_imp_le)
  also have "of_int ?K * pow2 ?q = of_int B"
    by (rule div_mult_cancel [OF pow2_neq0 div_pow2_int [OF q]])
  finally have yB: "?y \<le> of_int B" .
  have "\<bar>?y\<bar> \<le> 2 ^ 53"
  proof -
    have "\<bar>?y\<bar> = ?y" using y0 by simp
    also note yB
    also note B
    also have "(2::rat) ^ 52 \<le> 2 ^ 53" by simp
    finally show ?thesis .
  qed
  from below_pow2_1024 [OF this] have "round_double x = Fin ?y"
    using False by (simp add: round_double_def Let_def ax)
  with y0 yB show ?thesis by simp
qed

lemma round_double_near:
  assumes "1 \<le> x" and "x < 2 ^ 41"
  shows "\<exists>v. round_double x = Fin v \<and> \<bar>v - x\<bar> \<le> 1 / 2 ^ 13"
proof -
  have x0: "0 < x" and ax: "\<bar>x\<bar> = x" using assms(1) by simp_all
  let ?e = "ilog2 x"
  let ?q = "max (?e - 52) (- 1074)"
  have e0: "0 \<le> ?e" using ilog2_ge [OF x0, of 0] assms(1) by (simp add: pow2_def)
  have "x < pow2 41" using assms by (simp add: pow2_def)
  from ilog2_le [OF x0 this] have e40: "?e \<le> 40" by simp
  have q: "?q \<le> - 12" using e0 e40 by simp
  let ?m = "round_even (x / pow2 ?q)"
  let ?y = "of_int ?m * pow2 ?q"
  have "?y - x = (of_int ?m - x / pow2 ?q) * pow2 ?q"
    by (rule diff_scale [OF pow2_neq0])
  then have "\<bar>?y - x\<bar> = \<bar>of_int ?m - x / pow2 ?q\<bar> * pow2 ?q"
    by (simp only: abs_mult) (simp add: less_imp_le)
  also have "\<dots> \<le> (1 / 2) * pow2 ?q"
    by (rule mult_right_mono [OF round_even_error]) (simp add: less_imp_le)
  also have "\<dots> \<le> (1 / 2) * pow2 (- 12)"
    by (rule mult_left_mono [OF pow2_mono [OF q]]) simp
  also have "\<dots> = 1 / 2 ^ 13" by (simp add: pow2_def)
  finally have err: "\<bar>?y - x\<bar> \<le> 1 / 2 ^ 13" .
  have "\<bar>?y\<bar> \<le> 2 ^ 53"
  proof -
    from x0 have "0 \<le> x" by simp
    from abs_near [OF err this] have "\<bar>?y\<bar> \<le> x + 1 / 2 ^ 13" .
    also have "\<dots> \<le> 2 ^ 41 + 1" using assms(2) by simp
    also have "\<dots> \<le> (2::rat) ^ 53" by simp
    finally show ?thesis .
  qed
  from below_pow2_1024 [OF this] have "round_double x = Fin ?y"
    using x0 by (simp add: round_double_def Let_def ax)
  with err show ?thesis by simp
qed

subsection \<open>Comparisons and whole millimetres\<close>

lemma is_fin_Fin [simp]: "is_fin (Fin x)"
  by (simp add: is_fin_def)

lemma is_fin_simps [simp]: "\<not> is_fin PInf" "\<not> is_fin NInf" "\<not> is_fin NaN"
  by (simp_all add: is_fin_def)

lemma val_Fin [simp]: "val (Fin x) = x"
  by (simp add: val_def)

lemma int_mm_Fin [simp]: "int_mm (Fin x) = \<lfloor>x\<rfloor>"
  by (simp add: int_mm_def)

lemma is_finE: "is_fin n \<Longrightarrow> (\<And>x. n = Fin x \<Longrightarrow> P) \<Longrightarrow> P"
  by (cases n) simp_all

lemma is_fin_val: "is_fin n \<Longrightarrow> n = Fin (val n)"
  by (cases n) simp_all


lemma num_le_fin: "is_fin a \<Longrightarrow> is_fin b \<Longrightarrow> num_le a b \<longleftrightarrow> val a \<le> val b"
  by (cases a; cases b) simp_all


lemma whole_mmD:
  assumes "whole_mm n"
  shows "n = Fin (of_int (int_mm n))" and "0 < int_mm n" and "int_mm n \<le> 2 ^ 50"
  using assms by (simp_all add: whole_mm_def)

lemma whole_mmE:
  assumes "whole_mm n"
  obtains z where "n = Fin (of_int z)" and "0 < z" and "z \<le> 2 ^ 50" and "int_mm n = z"
  using whole_mmD [OF assms] by blast

lemma whole_mm_fin: "whole_mm n \<Longrightarrow> is_fin n"
  by (metis is_fin_Fin whole_mmD(1))

lemma whole_mm_val: "whole_mm n \<Longrightarrow> val n = of_int (int_mm n)"
  by (metis val_Fin whole_mmD(1))

lemma whole_mm_int [simp]: "whole_mm (Fin (of_int z)) \<longleftrightarrow> 0 < z \<and> z \<le> 2 ^ 50"
  by (simp add: whole_mm_def)

lemma num_add_small:
  "\<bar>a\<bar> \<le> 2 ^ 52 \<Longrightarrow> \<bar>b\<bar> \<le> 2 ^ 52 \<Longrightarrow>
   num_add (Fin (of_int a)) (Fin (of_int b)) = Fin (of_int (a + b))"
  by (rule num_add_int) simp

lemma num_sub_small:
  "\<bar>a\<bar> \<le> 2 ^ 52 \<Longrightarrow> \<bar>b\<bar> \<le> 2 ^ 52 \<Longrightarrow>
   num_sub (Fin (of_int a)) (Fin (of_int b)) = Fin (of_int (a - b))"
  by (rule num_sub_int) simp

lemma FIXED_WASTE_int: "FIXED_WASTE = Fin (of_int 110)"
  by (simp add: FIXED_WASTE_def)

lemma KERF_int: "KERF = Fin (of_int 2)"
  by (simp add: KERF_def)

lemma usable_whole:
  assumes "whole_mm s"
  shows "num_sub s FIXED_WASTE = Fin (of_int (int_mm s - 110))"
proof -
  note s = whole_mmD [OF assms]
  have "num_sub (Fin (of_int (int_mm s))) (Fin (of_int 110)) = Fin (of_int (int_mm s - 110))"
    by (rule num_sub_small) (use s(2,3) in simp_all)
  then show ?thesis using s(1) by (simp only: FIXED_WASTE_int)
qed

lemma needed_whole:
  assumes "whole_mm l"
  shows "num_add l KERF = Fin (of_int (int_mm l + 2))"
proof -
  note l = whole_mmD [OF assms]
  have "num_add (Fin (of_int (int_mm l))) (Fin (of_int 2)) = Fin (of_int (int_mm l + 2))"
    by (rule num_add_small) (use l(2,3) in simp_all)
  then show ?thesis using l(1) by (simp only: KERF_int)
qed

section \<open>Properties of the allocator\<close>

subsection \<open>The scan for the best bin\<close>

lemma scan_result:
  "scan needed ps i b br = b \<or>
   (\<exists>j < length ps. scan needed ps i b br = int (i + j) \<and> fits needed (ps ! j))"
proof (induction ps arbitrary: i b br)
  case Nil
  then show ?case by simp
next
  case (Cons p ps)
  show ?case
  proof (cases "num_ge (remainingMm p) needed \<and> num_lt (remainingMm p) br")
    case True
    then have step: "scan needed (p # ps) i b br = scan needed ps (i + 1) (int i) (remainingMm p)"
      by simp
    from Cons.IH [of "i + 1" "int i" "remainingMm p"] show ?thesis
    proof
      assume "scan needed ps (i + 1) (int i) (remainingMm p) = int i"
      with True have "scan needed (p # ps) i b br = int (i + 0) \<and> fits needed ((p # ps) ! 0)"
        by (simp add: fits_def)
      then show ?thesis by blast
    next
      assume "\<exists>j<length ps. scan needed ps (i + 1) (int i) (remainingMm p) = int (i + 1 + j) \<and>
          fits needed (ps ! j)"
      then obtain j where j: "j < length ps"
        "scan needed ps (i + 1) (int i) (remainingMm p) = int (i + 1 + j)" "fits needed (ps ! j)"
        by blast
      then have "Suc j < length (p # ps) \<and> scan needed (p # ps) i b br = int (i + Suc j) \<and>
          fits needed ((p # ps) ! Suc j)"
        using step by simp
      then show ?thesis by blast
    qed
  next
    case False
    then have step: "scan needed (p # ps) i b br = scan needed ps (i + 1) b br"
      by auto
    from Cons.IH [of "i + 1" b br] show ?thesis
    proof
      assume "scan needed ps (i + 1) b br = b"
      with step show ?thesis by simp
    next
      assume "\<exists>j<length ps. scan needed ps (i + 1) b br = int (i + 1 + j) \<and> fits needed (ps ! j)"
      then obtain j where j: "j < length ps"
        "scan needed ps (i + 1) b br = int (i + 1 + j)" "fits needed (ps ! j)"
        by blast
      then have "Suc j < length (p # ps) \<and> scan needed (p # ps) i b br = int (i + Suc j) \<and>
          fits needed ((p # ps) ! Suc j)"
        using step by simp
      then show ?thesis by blast
    qed
  qed
qed

lemma scan_start_result:
  "scan needed pipes 0 (- 1) PInf = - 1 \<or>
   (\<exists>j < length pipes. scan needed pipes 0 (- 1) PInf = int j \<and> fits needed (pipes ! j))"
  using scan_result [of needed pipes 0 "- 1" PInf] by simp








subsection \<open>One placement\<close>

lemma place_skip: "skipped mat piece \<Longrightarrow> place mat piece pipes = pipes"
  by (simp add: place_def skipped_def)

lemma place_at:
  assumes "\<not> skipped mat piece"
    and "scan (num_add (lengthMm piece) KERF) pipes 0 (- 1) PInf = int j"
  shows "place mat piece pipes = pipes[j := add_cut piece (pipes ! j)]"
  using assms by (simp add: place_def skipped_def Let_def add_cut_def)

lemma place_new:
  assumes "\<not> skipped mat piece"
    and "scan (num_add (lengthMm piece) KERF) pipes 0 (- 1) PInf = - 1"
  shows "place mat piece pipes = pipes @ [new_pipe mat piece]"
  using assms by (simp add: place_def skipped_def Let_def new_pipe_def)

lemma place_cases:
  obtains (skip) "skipped mat piece" "place mat piece pipes = pipes"
  | (existing) j where "\<not> skipped mat piece" "j < length pipes"
      "fits (num_add (lengthMm piece) KERF) (pipes ! j)"
      "scan (num_add (lengthMm piece) KERF) pipes 0 (- 1) PInf = int j"
      "place mat piece pipes = pipes[j := add_cut piece (pipes ! j)]"
  | (new) "\<not> skipped mat piece"
      "scan (num_add (lengthMm piece) KERF) pipes 0 (- 1) PInf = - 1"
      "place mat piece pipes = pipes @ [new_pipe mat piece]"
proof (cases "skipped mat piece")
  case True
  with place_skip [OF True] skip show ?thesis by blast
next
  case False
  from scan_start_result [of "num_add (lengthMm piece) KERF" pipes] show ?thesis
  proof
    assume s: "scan (num_add (lengthMm piece) KERF) pipes 0 (- 1) PInf = - 1"
    from new [OF False s place_new [OF False s]] show ?thesis .
  next
    assume "\<exists>j<length pipes. scan (num_add (lengthMm piece) KERF) pipes 0 (- 1) PInf = int j \<and>
        fits (num_add (lengthMm piece) KERF) (pipes ! j)"
    then obtain j where j: "j < length pipes"
      "scan (num_add (lengthMm piece) KERF) pipes 0 (- 1) PInf = int j"
      "fits (num_add (lengthMm piece) KERF) (pipes ! j)" by blast
    from existing [OF False j(1) j(3) j(2) place_at [OF False j(2)]] show ?thesis .
  qed
qed





subsection \<open>The cuts of the bins\<close>

lemma all_cuts_update:
  "i < length pipes \<Longrightarrow>
   mset (all_cuts (pipes[i := add_cut piece (pipes ! i)])) = mset (all_cuts pipes) + {#piece#}"
proof (induction pipes arbitrary: i)
  case Nil
  then show ?case by simp
next
  case (Cons p pipes)
  show ?case
  proof (cases i)
    case 0
    then show ?thesis by (simp add: all_cuts_def add_cut_def)
  next
    case (Suc k)
    with Cons.prems have "k < length pipes" by simp
    from Cons.IH [OF this] Suc show ?thesis by (simp add: all_cuts_def)
  qed
qed

lemma place_all_cuts:
  "mset (all_cuts (place mat piece pipes)) =
   mset (all_cuts pipes) + (if skipped mat piece then {#} else {#piece#})"
proof (cases mat piece pipes rule: place_cases)
  case skip
  then show ?thesis by simp
next
  case (existing j)
  then show ?thesis by (simp add: all_cuts_update)
next
  case new
  then show ?thesis by (simp add: all_cuts_def new_pipe_def)
qed

lemma pack_all_cuts:
  "mset (all_cuts (pack mat pieces pipes)) =
   mset (all_cuts pipes) + mset (filter (\<lambda>d. \<not> skipped mat d) pieces)"
  unfolding pack_def
  by (induction pieces arbitrary: pipes) (simp_all add: place_all_cuts)

lemma all_cuts_refund: "all_cuts (map refund pipes) = all_cuts pipes"
  by (induction pipes) (simp_all add: all_cuts_def refund_def)

lemma all_cuts_Nil: "all_cuts [] = []"
  by (simp add: all_cuts_def)

lemma place_nonempty:
  assumes "\<forall>p \<in> set pipes. cuts p \<noteq> []"
  shows "\<forall>p \<in> set (place mat piece pipes). cuts p \<noteq> []"
proof (cases mat piece pipes rule: place_cases)
  case skip
  with assms show ?thesis by simp
next
  case (existing j)
  have "set (pipes[j := add_cut piece (pipes ! j)]) \<subseteq> insert (add_cut piece (pipes ! j)) (set pipes)"
    by (rule set_update_subset_insert)
  moreover have "cuts (add_cut piece (pipes ! j)) \<noteq> []" by (simp add: add_cut_def)
  ultimately show ?thesis using assms unfolding existing(5) by auto
next
  case new
  with assms show ?thesis by (simp add: new_pipe_def)
qed

lemma pack_nonempty:
  "\<forall>p \<in> set pipes. cuts p \<noteq> [] \<Longrightarrow> \<forall>p \<in> set (pack mat pieces pipes). cuts p \<noteq> []"
  unfolding pack_def
proof (induction pieces arbitrary: pipes)
  case Nil
  then show ?case by simp
next
  case (Cons piece pieces)
  from Cons.IH [OF place_nonempty [OF Cons.prems]] show ?case by simp
qed

lemma pack_start_nonempty: "q \<in> set (pack mat pieces []) \<Longrightarrow> cuts q \<noteq> []"
  using pack_nonempty [of "[]" mat pieces] by simp

lemma refund_nonempty: "cuts q \<noteq> [] \<Longrightarrow> refund q = q\<lparr>remainingMm := num_add (remainingMm q) KERF\<rparr>"
  by (simp add: refund_def)

lemma packMaterial_refund:
  "packMaterial mat pieces =
   map (\<lambda>q. q\<lparr>remainingMm := num_add (remainingMm q) KERF\<rparr>) (pack mat (sort_desc pieces) [])"
  unfolding packMaterial_def
  by (rule map_cong [OF refl]) (rule refund_nonempty, erule pack_start_nonempty)

lemma packMaterial_nonempty: "p \<in> set (packMaterial mat pieces) \<Longrightarrow> cuts p \<noteq> []"
  unfolding packMaterial_refund by (auto dest: pack_start_nonempty)

subsection \<open>The order of the pieces\<close>

lemma insert_desc_mset: "mset (insert_desc a xs) = add_mset a (mset xs)"
  by (induction xs) simp_all

lemma sort_desc_mset: "mset (sort_desc pieces) = mset pieces"
  by (induction pieces) (simp_all add: sort_desc_def insert_desc_mset)

lemma sort_desc_set: "set (sort_desc pieces) = set pieces"
  using sort_desc_mset [of pieces] by (metis set_mset_mset)






lemma packMaterial_all_cuts:
  "mset (all_cuts (packMaterial mat pieces)) = mset (filter (\<lambda>d. \<not> skipped mat d) pieces)"
proof -
  have "mset (filter (\<lambda>d. \<not> skipped mat d) (sort_desc pieces)) =
      mset (filter (\<lambda>d. \<not> skipped mat d) pieces)"
    by (simp only: mset_filter sort_desc_mset)
  then show ?thesis
    by (simp add: packMaterial_def all_cuts_refund pack_all_cuts all_cuts_Nil)
qed

subsection \<open>The invariant of the bins, for whole millimetres\<close>

lemma skipped_whole:
  assumes "whole_mm (stockLengthMm mat)" and "whole_mm (lengthMm d)"
  shows "skipped mat d \<longleftrightarrow> int_mm (stockLengthMm mat) - 110 < int_mm (lengthMm d)"
proof -
  from assms(2) obtain l where l: "lengthMm d = Fin (of_int l)" "int_mm (lengthMm d) = l"
    by (rule whole_mmE)
  have "num_lt (Fin (of_int (int_mm (stockLengthMm mat) - 110))) (Fin (of_int l)) \<longleftrightarrow>
      int_mm (stockLengthMm mat) - 110 < l"
    by (simp only: num_lt.simps of_int_less_iff)
  then show ?thesis
    by (simp only: skipped_def usable_whole [OF assms(1)] num_gt_def l int_mm_Fin floor_of_int)
qed

lemma cut_charge_nonneg:
  "list_all (\<lambda>c. whole_mm (lengthMm c)) cs \<Longrightarrow>
   0 \<le> sum_list (map (\<lambda>c. int_mm (lengthMm c) + 2) cs)"
proof (induction cs)
  case Nil
  then show ?case by simp
next
  case (Cons c cs)
  then have "0 < int_mm (lengthMm c)" by (simp add: whole_mmD(2))
  with Cons show ?case by simp
qed

lemma bin_okD:
  assumes "bin_ok mat p"
  shows "cuts p \<noteq> []" and "pipeStockLengthMm p = stockLengthMm mat"
    and "usableMm p = Fin (of_int (int_mm (stockLengthMm mat) - 110))"
    and "list_all (\<lambda>c. whole_mm (lengthMm c)) (cuts p)"
    and "remainingMm p =
      Fin (of_int (int_mm (stockLengthMm mat) - 110 -
                   sum_list (map (\<lambda>c. int_mm (lengthMm c) + 2) (cuts p))))"
    and "- 2 \<le> int_mm (remainingMm p)"
    and "length (cuts p) > 1 \<Longrightarrow> 0 \<le> int_mm (remainingMm p)"
  using assms unfolding bin_ok_def by blast+

lemma bin_okI:
  assumes "cuts p \<noteq> []" and "pipeStockLengthMm p = stockLengthMm mat"
    and "usableMm p = Fin (of_int (int_mm (stockLengthMm mat) - 110))"
    and "list_all (\<lambda>c. whole_mm (lengthMm c)) (cuts p)"
    and "remainingMm p =
      Fin (of_int (int_mm (stockLengthMm mat) - 110 -
                   sum_list (map (\<lambda>c. int_mm (lengthMm c) + 2) (cuts p))))"
    and "- 2 \<le> int_mm (remainingMm p)"
    and "length (cuts p) > 1 \<Longrightarrow> 0 \<le> int_mm (remainingMm p)"
  shows "bin_ok mat p"
  using assms unfolding bin_ok_def by blast

lemma bin_ok_int:
  assumes "bin_ok mat p"
  shows "int_mm (remainingMm p) =
    int_mm (stockLengthMm mat) - 110 - sum_list (map (\<lambda>c. int_mm (lengthMm c) + 2) (cuts p))"
  by (subst bin_okD(5) [OF assms]) (simp only: int_mm_Fin floor_of_int)

lemma bin_ok_remaining:
  assumes "whole_mm (stockLengthMm mat)" and "bin_ok mat p"
  shows "remainingMm p = Fin (of_int (int_mm (remainingMm p)))"
    and "- 2 \<le> int_mm (remainingMm p)" and "int_mm (remainingMm p) \<le> 2 ^ 50"
proof -
  show "remainingMm p = Fin (of_int (int_mm (remainingMm p)))"
    unfolding bin_ok_int [OF assms(2)] by (rule bin_okD(5) [OF assms(2)])
  show "- 2 \<le> int_mm (remainingMm p)" by (rule bin_okD(6) [OF assms(2)])
  from cut_charge_nonneg [OF bin_okD(4) [OF assms(2)]] whole_mmD(3) [OF assms(1)]
  show "int_mm (remainingMm p) \<le> 2 ^ 50" unfolding bin_ok_int [OF assms(2)] by simp
qed


lemma fits_whole:
  assumes "whole_mm (stockLengthMm mat)" and "whole_mm (lengthMm piece)" and "bin_ok mat p"
  shows "fits (num_add (lengthMm piece) KERF) p \<longleftrightarrow>
         int_mm (lengthMm piece) + 2 \<le> int_mm (remainingMm p)"
proof -
  have "num_le (Fin (of_int (int_mm (lengthMm piece) + 2))) (Fin (of_int (int_mm (remainingMm p))))
      \<longleftrightarrow> int_mm (lengthMm piece) + 2 \<le> int_mm (remainingMm p)"
    by (simp only: num_le.simps of_int_le_iff)
  then show ?thesis
    unfolding fits_def num_ge_def needed_whole [OF assms(2)]
    by (subst bin_ok_remaining(1) [OF assms(1,3)])
qed

lemma bin_ok_new:
  assumes "whole_mm (stockLengthMm mat)" and "whole_mm (lengthMm piece)"
    and "\<not> skipped mat piece"
  shows "bin_ok mat (new_pipe mat piece)"
proof -
  note s = whole_mmD [OF assms(1)] and l = whole_mmD [OF assms(2)]
  from assms(3) have le: "int_mm (lengthMm piece) \<le> int_mm (stockLengthMm mat) - 110"
    by (simp add: skipped_whole [OF assms(1,2)])
  have r: "num_sub (Fin (of_int (int_mm (stockLengthMm mat) - 110)))
        (Fin (of_int (int_mm (lengthMm piece) + 2))) =
      Fin (of_int (int_mm (stockLengthMm mat) - 110 - (int_mm (lengthMm piece) + 2)))"
    by (rule num_sub_small) (use s(2,3) l(2,3) in simp_all)
  have rem: "remainingMm (new_pipe mat piece) =
      Fin (of_int (int_mm (stockLengthMm mat) - 110 - (int_mm (lengthMm piece) + 2)))"
  proof -
    have "remainingMm (new_pipe mat piece) =
        num_sub (num_sub (stockLengthMm mat) FIXED_WASTE) (num_add (lengthMm piece) KERF)"
      by (simp add: new_pipe_def)
    then show ?thesis
      by (simp only: usable_whole [OF assms(1)] needed_whole [OF assms(2)] r)
  qed
  show ?thesis
  proof (rule bin_okI)
    show "cuts (new_pipe mat piece) \<noteq> []" by (simp add: new_pipe_def)
    show "pipeStockLengthMm (new_pipe mat piece) = stockLengthMm mat" by (simp add: new_pipe_def)
    show "usableMm (new_pipe mat piece) = Fin (of_int (int_mm (stockLengthMm mat) - 110))"
    proof -
      have "usableMm (new_pipe mat piece) = num_sub (stockLengthMm mat) FIXED_WASTE"
        by (simp add: new_pipe_def)
      then show ?thesis by (simp only: usable_whole [OF assms(1)])
    qed
    show "list_all (\<lambda>c. whole_mm (lengthMm c)) (cuts (new_pipe mat piece))"
      using assms(2) by (simp add: new_pipe_def)
    have c: "cuts (new_pipe mat piece) = [piece]" by (simp add: new_pipe_def)
    show "remainingMm (new_pipe mat piece) =
      Fin (of_int (int_mm (stockLengthMm mat) - 110 -
                   sum_list (map (\<lambda>c. int_mm (lengthMm c) + 2) (cuts (new_pipe mat piece)))))"
      unfolding rem c by simp
    have "int_mm (remainingMm (new_pipe mat piece)) =
        int_mm (stockLengthMm mat) - 110 - (int_mm (lengthMm piece) + 2)"
      unfolding rem by (simp only: int_mm_Fin floor_of_int)
    with le show "- 2 \<le> int_mm (remainingMm (new_pipe mat piece))" by simp
    show "0 \<le> int_mm (remainingMm (new_pipe mat piece))"
      if "length (cuts (new_pipe mat piece)) > 1"
      using that by (simp add: c)
  qed
qed

lemma bin_ok_add:
  assumes "whole_mm (stockLengthMm mat)" and "whole_mm (lengthMm piece)"
    and "bin_ok mat p" and "fits (num_add (lengthMm piece) KERF) p"
  shows "bin_ok mat (add_cut piece p)"
proof -
  note l = whole_mmD [OF assms(2)] and R = bin_ok_remaining [OF assms(1,3)]
  from assms(4) have le: "int_mm (lengthMm piece) + 2 \<le> int_mm (remainingMm p)"
    by (simp add: fits_whole [OF assms(1,2,3)])
  have "num_sub (Fin (of_int (int_mm (remainingMm p))))
        (Fin (of_int (int_mm (lengthMm piece) + 2))) =
      Fin (of_int (int_mm (remainingMm p) - (int_mm (lengthMm piece) + 2)))"
    by (rule num_sub_small) (use R(2,3) l(2,3) in simp_all)
  then have r: "num_sub (remainingMm p) (num_add (lengthMm piece) KERF) =
      Fin (of_int (int_mm (remainingMm p) - (int_mm (lengthMm piece) + 2)))"
    unfolding needed_whole [OF assms(2)] by (subst R(1))
  have rem: "remainingMm (add_cut piece p) =
      Fin (of_int (int_mm (remainingMm p) - (int_mm (lengthMm piece) + 2)))"
    by (simp add: add_cut_def r)
  have c: "cuts (add_cut piece p) = cuts p @ [piece]" by (simp add: add_cut_def)
  have irem: "int_mm (remainingMm (add_cut piece p)) =
      int_mm (remainingMm p) - (int_mm (lengthMm piece) + 2)"
    unfolding rem by (simp only: int_mm_Fin floor_of_int)
  show ?thesis
  proof (rule bin_okI)
    show "cuts (add_cut piece p) \<noteq> []" by (simp add: c)
    show "pipeStockLengthMm (add_cut piece p) = stockLengthMm mat"
      using bin_okD(2) [OF assms(3)] by (simp add: add_cut_def)
    show "usableMm (add_cut piece p) = Fin (of_int (int_mm (stockLengthMm mat) - 110))"
    proof -
      have "usableMm (add_cut piece p) = usableMm p" by (simp add: add_cut_def)
      then show ?thesis by (simp only: bin_okD(3) [OF assms(3)])
    qed
    show "list_all (\<lambda>c. whole_mm (lengthMm c)) (cuts (add_cut piece p))"
      using bin_okD(4) [OF assms(3)] assms(2) by (simp add: c)
    have "int_mm (remainingMm p) - (int_mm (lengthMm piece) + 2) =
        int_mm (stockLengthMm mat) - 110 -
          sum_list (map (\<lambda>c. int_mm (lengthMm c) + 2) (cuts (add_cut piece p)))"
      unfolding c bin_ok_int [OF assms(3)] by simp
    then show "remainingMm (add_cut piece p) =
      Fin (of_int (int_mm (stockLengthMm mat) - 110 -
                   sum_list (map (\<lambda>c. int_mm (lengthMm c) + 2) (cuts (add_cut piece p)))))"
      unfolding rem by (simp only:)
    from le show "- 2 \<le> int_mm (remainingMm (add_cut piece p))" unfolding irem by simp
    from le show "0 \<le> int_mm (remainingMm (add_cut piece p))" unfolding irem by simp
  qed
qed

lemma place_bin_ok:
  assumes "whole_mm (stockLengthMm mat)" and "whole_mm (lengthMm piece)"
    and "\<forall>p \<in> set pipes. bin_ok mat p"
  shows "\<forall>p \<in> set (place mat piece pipes). bin_ok mat p"
proof (cases mat piece pipes rule: place_cases)
  case skip
  with assms show ?thesis by simp
next
  case (existing j)
  have "bin_ok mat (add_cut piece (pipes ! j))"
    using bin_ok_add [OF assms(1,2) _ existing(3)] assms(3) existing(2) by simp
  moreover have "set (pipes[j := add_cut piece (pipes ! j)])
      \<subseteq> insert (add_cut piece (pipes ! j)) (set pipes)"
    by (rule set_update_subset_insert)
  ultimately show ?thesis
    using assms(3) unfolding existing(5) by auto
next
  case new
  with assms bin_ok_new [OF assms(1,2) new(1)] show ?thesis by simp
qed

lemma pack_bin_ok:
  assumes "whole_mm (stockLengthMm mat)"
  shows "\<forall>d \<in> set pieces. whole_mm (lengthMm d) \<Longrightarrow> \<forall>p \<in> set pipes. bin_ok mat p \<Longrightarrow>
         \<forall>p \<in> set (pack mat pieces pipes). bin_ok mat p"
  unfolding pack_def
proof (induction pieces arbitrary: pipes)
  case Nil
  then show ?case by simp
next
  case (Cons piece pieces)
  from Cons.prems(1) have w: "whole_mm (lengthMm piece)"
    and ws: "\<forall>d \<in> set pieces. whole_mm (lengthMm d)" by simp_all
  from Cons.IH [OF ws place_bin_ok [OF assms w Cons.prems(2)]] show ?case by simp
qed

lemma pack_start_bin_ok:
  assumes "whole_mm (stockLengthMm mat)" and "\<forall>d \<in> set pieces. whole_mm (lengthMm d)"
    and "q \<in> set (pack mat pieces [])"
  shows "bin_ok mat q"
  using pack_bin_ok [OF assms(1,2), of "[]"] assms(3) by simp

lemma charge_sum:
  "sum_list (map (\<lambda>c. int_mm (lengthMm c) + 2) cs) =
   sum_list (map (\<lambda>c. int_mm (lengthMm c)) cs) + 2 * int (length cs)"
  by (induction cs) simp_all

lemma bin_ok_conservation:
  assumes "bin_ok mat q"
  shows "int_mm (pipeStockLengthMm q) =
     110 + sum_list (map (\<lambda>c. int_mm (lengthMm c)) (cuts q)) + 2 * int (length (cuts q)) +
     int_mm (remainingMm q)"
  unfolding bin_ok_int [OF assms] bin_okD(2) [OF assms] charge_sum by simp

lemma packMaterial_member:
  assumes "whole_mm (stockLengthMm mat)" and "\<forall>d \<in> set pieces. whole_mm (lengthMm d)"
    and "p \<in> set (packMaterial mat pieces)"
  obtains q where "bin_ok mat q"
    and "p = q\<lparr>remainingMm := Fin (of_int (int_mm (remainingMm q) + 2))\<rparr>"
    and "q \<in> set (pack mat (sort_desc pieces) [])"
proof -
  from assms(3) obtain q where q: "q \<in> set (pack mat (sort_desc pieces) [])"
    and p: "p = q\<lparr>remainingMm := num_add (remainingMm q) KERF\<rparr>"
    unfolding packMaterial_refund by auto
  have "\<forall>d \<in> set (sort_desc pieces). whole_mm (lengthMm d)"
    using assms(2) by (simp add: sort_desc_set)
  from pack_start_bin_ok [OF assms(1) this q] have ok: "bin_ok mat q" .
  note R = bin_ok_remaining [OF assms(1) ok]
  have "num_add (Fin (of_int (int_mm (remainingMm q)))) (Fin (of_int 2)) =
      Fin (of_int (int_mm (remainingMm q) + 2))"
    by (rule num_add_small) (use R(2,3) in simp_all)
  then have "num_add (remainingMm q) KERF = Fin (of_int (int_mm (remainingMm q) + 2))"
    unfolding KERF_int by (subst R(1))
  with p have "p = q\<lparr>remainingMm := Fin (of_int (int_mm (remainingMm q) + 2))\<rparr>" by (simp only:)
  from that [OF ok this q] show thesis .
qed

subsection \<open>materialMap\<close>

lemma fold_materialMap_Some:
  "fold (\<lambda>m mp. mp(mid m \<mapsto> m)) ms mp k = Some m \<Longrightarrow>
   mp k = Some m \<or> (m \<in> set ms \<and> mid m = k)"
proof (induction ms arbitrary: mp)
  case Nil
  then show ?case by simp
next
  case (Cons a ms)
  from Cons.prems have "fold (\<lambda>m mp. mp(mid m \<mapsto> m)) ms (mp(mid a \<mapsto> a)) k = Some m"
    by (simp only: fold.simps comp_apply)
  from Cons.IH [OF this] show ?case
    by (cases "mid a = k") auto
qed

lemma fold_materialMap_dom:
  "dom (fold (\<lambda>m mp. mp(mid m \<mapsto> m)) ms mp) = dom mp \<union> mid ` set ms"
  by (induction ms arbitrary: mp) auto

lemma materialMap_Some: "materialMap ms k = Some m \<Longrightarrow> m \<in> set ms \<and> mid m = k"
  using fold_materialMap_Some [of ms Map.empty k m] by (simp add: materialMap_def)

lemma materialMap_dom: "dom (materialMap ms) = mid ` set ms"
  by (simp add: materialMap_def fold_materialMap_dom)

subsection \<open>group_demands\<close>

lemma keyed_distinct: "keyed g \<Longrightarrow> distinct (map fst g)"
  by (simp add: keyed_def)

lemma keyed_member: "keyed g \<Longrightarrow> (k, l) \<in> set g \<Longrightarrow> d \<in> set l \<Longrightarrow> materialId d = k"
  unfolding keyed_def by blast

lemma keyedI:
  assumes "distinct (map fst g)"
    and "\<And>k l d. (k, l) \<in> set g \<Longrightarrow> d \<in> set l \<Longrightarrow> materialId d = k"
  shows "keyed g"
  unfolding keyed_def using assms by blast

lemma keyed_update_list:
  assumes g: "keyed g" and old: "\<And>e. e \<in> set old \<Longrightarrow> materialId e = k"
  shows "keyed (AList.update k old g)"
proof (rule keyedI)
  show dist: "distinct (map fst (AList.update k old g))"
    by (rule distinct_update [OF keyed_distinct [OF g]])
  fix k' l e assume kl: "(k', l) \<in> set (AList.update k old g)" and e: "e \<in> set l"
  from kl dist have m: "map_of (AList.update k old g) k' = Some l"
    by (simp only: map_of_eq_Some_iff)
  show "materialId e = k'"
  proof (cases "k' = k")
    case True
    with m have "l = old" by (simp add: update_conv')
    with e old True show ?thesis by simp
  next
    case False
    with m have "map_of g k' = Some l" by (simp add: update_conv')
    then have "(k', l) \<in> set g" by (rule map_of_SomeD)
    from keyed_member [OF g this e] show ?thesis .
  qed
qed

lemma keyed_update:
  assumes "keyed g"
  shows "keyed (AList.update (materialId d)
           ((case map_of g (materialId d) of None \<Rightarrow> [] | Some l \<Rightarrow> l) @ [d]) g)"
proof (rule keyed_update_list [OF assms])
  fix e
  assume e: "e \<in> set ((case map_of g (materialId d) of None \<Rightarrow> [] | Some l \<Rightarrow> l) @ [d])"
  show "materialId e = materialId d"
  proof (cases "map_of g (materialId d)")
    case None
    with e show ?thesis by simp
  next
    case (Some l)
    then have in_g: "(materialId d, l) \<in> set g" by (rule map_of_SomeD)
    from Some e have "e \<in> set l \<or> e = d" by auto
    then show ?thesis
    proof
      assume "e \<in> set l"
      from keyed_member [OF assms in_g this] show ?thesis .
    next
      assume "e = d"
      then show ?thesis by simp
    qed
  qed
qed

lemma group_demands_keyed: "keyed g \<Longrightarrow> keyed (group_demands ds g)"
  by (induction ds arbitrary: g) (simp_all add: keyed_update Let_def)

lemma group_demands_dom:
  "fst ` set (group_demands ds g) = fst ` set g \<union> materialId ` set ds"
  by (induction ds arbitrary: g) (auto simp: Let_def dom_update)

lemma group_demands_map_of:
  "map_of (group_demands ds g) k =
     (if k \<in> materialId ` set ds
      then Some ((case map_of g k of None \<Rightarrow> [] | Some l \<Rightarrow> l) @ filter (\<lambda>d. materialId d = k) ds)
      else map_of g k)"
proof (induction ds arbitrary: g)
  case Nil
  then show ?case by simp
next
  case (Cons d ds)
  show ?case
  proof (cases "materialId d = k")
    case True
    have "k \<notin> materialId ` set ds \<Longrightarrow> filter (\<lambda>d. materialId d = k) ds = []"
      by (auto simp: filter_empty_conv)
    with True show ?thesis
      by (simp add: Let_def Cons.IH update_conv' split: option.splits)
  next
    case False
    then show ?thesis
      by (simp add: Let_def Cons.IH update_conv')
  qed
qed

lemma update_values_mset:
  "distinct (map fst g) \<Longrightarrow>
   mset (concat (map snd (AList.update k ((case map_of g k of None \<Rightarrow> [] | Some l \<Rightarrow> l) @ [d]) g)))
     = mset (concat (map snd g)) + {#d#}"
proof (induction g)
  case Nil
  then show ?case by simp
next
  case (Cons p g)
  show ?case
  proof (cases "fst p = k")
    case True
    then show ?thesis by (cases p) simp
  next
    case False
    with Cons show ?thesis by (cases p) simp
  qed
qed

lemma group_demands_mset:
  "keyed g \<Longrightarrow>
   mset (concat (map snd (group_demands ds g))) = mset (concat (map snd g)) + mset ds"
proof (induction ds arbitrary: g)
  case Nil
  then show ?case by simp
next
  case (Cons d ds)
  have "distinct (map fst g)" using Cons.prems by (rule keyed_distinct)
  from update_values_mset [OF this, of "materialId d" d]
    Cons.IH [OF keyed_update [OF Cons.prems, of d]]
  show ?case by (simp add: Let_def)
qed

lemma keyed_Nil: "keyed []"
  by (simp add: keyed_def)

subsection \<open>plan_loop\<close>

lemma update_fresh: "k \<notin> fst ` set al \<Longrightarrow> AList.update k v al = al @ [(k, v)]"
  by (induction al) auto

lemma plan_loop_planned:
  "distinct (map fst g) \<Longrightarrow> fst ` set g \<inter> fst ` set plan = {} \<Longrightarrow>
   plan_loop mm g plan = plan @ planned mm g"
proof (induction g arbitrary: plan)
  case Nil
  then show ?case by simp
next
  case (Cons p g)
  obtain k pieces where p: "p = (k, pieces)" by (cases p)
  from Cons.prems p have dg: "distinct (map fst g)" and kg: "k \<notin> fst ` set g"
    and kp: "k \<notin> fst ` set plan" and disj: "fst ` set g \<inter> fst ` set plan = {}"
    by auto
  show ?case
  proof (cases "mm k")
    case None
    with Cons.IH [OF dg disj] p show ?thesis by simp
  next
    case (Some mat)
    show ?thesis
    proof (cases "k = ''__proto__''")
      case True
      with Cons.IH [OF dg disj] p Some show ?thesis by (simp add: set_property_def)
    next
      case False
      have "fst ` set g \<inter> fst ` set (plan @ [(k, packMaterial mat pieces)]) = {}"
        using disj kg by auto
      from Cons.IH [OF dg this] Some p kp False show ?thesis
        by (simp add: update_fresh set_property_def)
    qed
  qed
qed

lemma optimize_planned:
  "optimize ms ds = planned (materialMap ms) (group_demands ds [])"
proof -
  have "keyed (group_demands ds [])" by (rule group_demands_keyed [OF keyed_Nil])
  then have "distinct (map fst (group_demands ds []))" by (rule keyed_distinct)
  from plan_loop_planned [OF this, of "[]"] show ?thesis by (simp add: optimize_def)
qed

lemma planned_set:
  "(k, pipes) \<in> set (planned mm g) \<longleftrightarrow>
   (\<exists>pieces mat. (k, pieces) \<in> set g \<and> mm k = Some mat \<and> k \<noteq> ''__proto__'' \<and>
      pipes = packMaterial mat pieces)"
  by (induction mm g rule: planned.induct) (auto split: option.splits)

lemma planned_keys:
  "map fst (planned mm g) = filter (\<lambda>k. mm k \<noteq> None \<and> k \<noteq> ''__proto__'') (map fst g)"
  by (induction mm g rule: planned.induct) (auto split: option.splits)

lemma group_demands_member:
  "(k, pieces) \<in> set (group_demands ds []) \<longleftrightarrow>
   k \<in> materialId ` set ds \<and> pieces = filter (\<lambda>d. materialId d = k) ds"
proof -
  have dist: "distinct (map fst (group_demands ds []))"
    by (rule keyed_distinct [OF group_demands_keyed [OF keyed_Nil]])
  have m: "map_of (group_demands ds []) k =
      (if k \<in> materialId ` set ds then Some (filter (\<lambda>d. materialId d = k) ds) else None)"
    by (simp add: group_demands_map_of)
  have "(k, pieces) \<in> set (group_demands ds []) \<longleftrightarrow>
      map_of (group_demands ds []) k = Some pieces"
    by (rule map_of_eq_Some_iff [OF dist, symmetric])
  also have "\<dots> \<longleftrightarrow> k \<in> materialId ` set ds \<and> pieces = filter (\<lambda>d. materialId d = k) ds"
    unfolding m by (cases "k \<in> materialId ` set ds") (simp_all add: eq_commute)
  finally show ?thesis .
qed

lemma optimize_entry:
  "(k, pipes) \<in> set (optimize ms ds) \<longleftrightarrow>
   (\<exists>mat. k \<in> materialId ` set ds \<and> materialMap ms k = Some mat \<and> k \<noteq> ''__proto__'' \<and>
      pipes = packMaterial mat (filter (\<lambda>d. materialId d = k) ds))"
  unfolding optimize_planned planned_set group_demands_member by blast

lemma optimize_member:
  assumes "(k, pipes) \<in> set (optimize ms ds)"
  obtains mat where "materialMap ms k = Some mat" and "k \<in> materialId ` set ds"
    and "k \<noteq> ''__proto__''"
    and "pipes = packMaterial mat (filter (\<lambda>d. materialId d = k) ds)"
  using assms unfolding optimize_entry by blast

lemma pack_all_skipped:
  "\<forall>d \<in> set pieces. skipped mat d \<Longrightarrow> pack mat pieces pipes = pipes"
  unfolding pack_def by (induction pieces arbitrary: pipes) (simp_all add: place_skip)

lemma packMaterial_all_skipped:
  assumes "\<forall>d \<in> set pieces. skipped mat d"
  shows "packMaterial mat pieces = []"
proof -
  have "\<forall>d \<in> set (sort_desc pieces). skipped mat d"
    using assms by (simp add: sort_desc_set)
  from pack_all_skipped [OF this] show ?thesis by (simp add: packMaterial_def)
qed

lemma optimize_keys:
  "map fst (optimize ms ds) =
   filter (\<lambda>k. materialMap ms k \<noteq> None \<and> k \<noteq> ''__proto__'') (map fst (group_demands ds []))"
  by (simp add: optimize_planned planned_keys)

lemma optimize_distinct: "distinct (map fst (optimize ms ds))"
  unfolding optimize_keys
  by (rule distinct_filter [OF keyed_distinct [OF group_demands_keyed [OF keyed_Nil]]])

lemma optimize_key_set:
  "set (map fst (optimize ms ds)) = (materialId ` set ds \<inter> mid ` set ms) - {''__proto__''}"
proof -
  have "fst ` set (group_demands ds []) = materialId ` set ds"
    by (simp add: group_demands_dom)
  moreover have "{k. materialMap ms k \<noteq> None} = mid ` set ms"
    using materialMap_dom [of ms] by (simp add: dom_def)
  ultimately show ?thesis
    unfolding optimize_keys by auto
qed

lemma optimize_map_of:
  "map_of (optimize ms ds) k = Some pipes \<longleftrightarrow> (k, pipes) \<in> set (optimize ms ds)"
  by (rule map_of_eq_Some_iff [OF optimize_distinct])

lemma planned_cuts:
  "keyed g \<Longrightarrow>
   mset (plan_cuts (planned mm g)) = mset (filter (assignable mm) (concat (map snd g)))"
proof (induction mm g rule: planned.induct)
  case (1 mm)
  then show ?case by (simp add: plan_cuts_def)
next
  case (2 mm k pieces rest)
  from "2.prems" have rest: "keyed rest"
    and mem: "\<And>d. d \<in> set pieces \<Longrightarrow> materialId d = k"
    by (auto simp: keyed_def)
  show ?case
  proof (cases "mm k")
    case None
    then have "filter (assignable mm) pieces = []"
      using mem by (simp add: filter_empty_conv assignable_def fitting_def)
    with None "2.IH"(1) [OF None rest] show ?thesis by simp
  next
    case (Some mat)
    show ?thesis
    proof (cases "k = ''__proto__''")
      case True
      then have "filter (assignable mm) pieces = []"
        using mem Some by (simp add: filter_empty_conv assignable_def fitting_def)
      with Some True "2.IH"(2) [OF Some True rest] show ?thesis by simp
    next
      case False
      have "filter (assignable mm) pieces = filter (\<lambda>d. \<not> skipped mat d) pieces"
        using mem Some False by (intro filter_cong refl) (simp add: assignable_def fitting_def)
      with Some False "2.IH"(3) [OF Some False rest] show ?thesis
        by (simp add: plan_cuts_def packMaterial_all_cuts)
    qed
  qed
qed

lemma optimize_cuts:
  "mset (plan_cuts (optimize ms ds)) = mset (filter (assignable (materialMap ms)) ds)"
proof -
  have k: "keyed (group_demands ds [])" by (rule group_demands_keyed [OF keyed_Nil])
  have "mset (concat (map snd (group_demands ds []))) = mset ds"
    using group_demands_mset [OF keyed_Nil, of ds] by simp
  then have "mset (filter (assignable (materialMap ms)) (concat (map snd (group_demands ds []))))
      = mset (filter (assignable (materialMap ms)) ds)"
    by (simp only: mset_filter)
  with planned_cuts [OF k, of "materialMap ms"] show ?thesis
    by (simp only: optimize_planned)
qed

subsection \<open>Whole millimetres in a call\<close>

lemma skipped_exact:
  assumes "whole_mm (stockLengthMm mat)" and "whole_mm (lengthMm d)"
  shows "skipped mat d \<longleftrightarrow> val (stockLengthMm mat) - val FIXED_WASTE < val (lengthMm d)"
proof -
  have "val (stockLengthMm mat) - val FIXED_WASTE < val (lengthMm d) \<longleftrightarrow>
      (of_int (int_mm (stockLengthMm mat) - 110) :: rat) < of_int (int_mm (lengthMm d))"
    by (simp add: whole_mm_val [OF assms(1)] whole_mm_val [OF assms(2)] FIXED_WASTE_def)
  also have "\<dots> \<longleftrightarrow> int_mm (stockLengthMm mat) - 110 < int_mm (lengthMm d)"
    by (simp only: of_int_less_iff)
  finally show ?thesis by (simp only: skipped_whole [OF assms])
qed

lemma whole_lengths_material:
  "whole_lengths ms ds \<Longrightarrow> materialMap ms k = Some mat \<Longrightarrow> whole_mm (stockLengthMm mat)"
  by (auto simp: whole_lengths_def list_all_iff dest: materialMap_Some)

lemma whole_lengths_demand: "whole_lengths ms ds \<Longrightarrow> d \<in> set ds \<Longrightarrow> whole_mm (lengthMm d)"
  by (simp add: whole_lengths_def list_all_iff)

lemma bin_ok_val:
  assumes "whole_mm (stockLengthMm mat)" and "bin_ok mat q"
  shows "val (remainingMm q) = of_int (int_mm (remainingMm q))"
  using bin_ok_remaining(1) [OF assms] by (metis val_Fin)

lemma packMaterial_remaining:
  assumes "whole_mm (stockLengthMm mat)" and "\<forall>d \<in> set pieces. whole_mm (lengthMm d)"
    and "p \<in> set (packMaterial mat pieces)"
  shows "is_fin (remainingMm p)" and "0 \<le> val (remainingMm p)"
proof -
  from assms obtain q where q: "bin_ok mat q"
    and p: "p = q\<lparr>remainingMm := Fin (of_int (int_mm (remainingMm q) + 2))\<rparr>"
    by (rule packMaterial_member)
  from p have r: "remainingMm p = Fin (of_int (int_mm (remainingMm q) + 2))" by simp
  show "is_fin (remainingMm p)" by (simp only: r is_fin_Fin)
  from bin_okD(6) [OF q] have "(0::rat) \<le> of_int (int_mm (remainingMm q) + 2)"
    by (simp only: of_int_0_le_iff)
  then show "0 \<le> val (remainingMm p)" by (simp only: r val_Fin)
qed

lemma optimize_whole:
  assumes "whole_lengths ms ds" and "(k, pipes) \<in> set (optimize ms ds)"
  obtains mat where "materialMap ms k = Some mat" and "whole_mm (stockLengthMm mat)"
    and "\<forall>d \<in> set (filter (\<lambda>d. materialId d = k) ds). whole_mm (lengthMm d)"
    and "pipes = packMaterial mat (filter (\<lambda>d. materialId d = k) ds)"
    and "k \<noteq> ''__proto__''"
proof -
  from assms(2) obtain mat where m: "materialMap ms k = Some mat"
    and np: "k \<noteq> ''__proto__''"
    and pipes: "pipes = packMaterial mat (filter (\<lambda>d. materialId d = k) ds)"
    by (rule optimize_member)
  have w: "whole_mm (stockLengthMm mat)" by (rule whole_lengths_material [OF assms(1) m])
  have "\<forall>d \<in> set (filter (\<lambda>d. materialId d = k) ds). whole_mm (lengthMm d)"
    using whole_lengths_demand [OF assms(1)] by simp
  from that [OF m w this pipes np] show thesis .
qed

lemma sum_list_val:
  "list_all (\<lambda>c. whole_mm (lengthMm c)) cs \<Longrightarrow>
   sum_list (map (\<lambda>c. val (lengthMm c)) cs) =
   of_int (sum_list (map (\<lambda>c. int_mm (lengthMm c)) cs))"
  by (induction cs) (simp_all add: whole_mm_val)

lemma bin_ok_conservation_val:
  assumes "whole_mm (stockLengthMm mat)" and "bin_ok mat q"
  shows "val (pipeStockLengthMm q) =
     val FIXED_WASTE + sum_list (map (\<lambda>c. val (lengthMm c)) (cuts q)) +
     val KERF * of_nat (length (cuts q)) + val (remainingMm q)"
proof -
  have "val (pipeStockLengthMm q) = of_int (int_mm (pipeStockLengthMm q))"
    using whole_mm_val [OF assms(1)] by (simp only: bin_okD(2) [OF assms(2)])
  also have "\<dots> = of_int (110 + sum_list (map (\<lambda>c. int_mm (lengthMm c)) (cuts q)) +
      2 * int (length (cuts q)) + int_mm (remainingMm q))"
    by (simp only: bin_ok_conservation [OF assms(2)])
  also have "\<dots> = 110 + of_int (sum_list (map (\<lambda>c. int_mm (lengthMm c)) (cuts q))) +
      2 * of_nat (length (cuts q)) + of_int (int_mm (remainingMm q))"
    by simp
  finally show ?thesis
    by (simp only: sum_list_val [OF bin_okD(4) [OF assms(2)]] bin_ok_val [OF assms]
        FIXED_WASTE_def KERF_def val_Fin)
qed

lemma packMaterial_conservation:
  assumes "whole_mm (stockLengthMm mat)" and "\<forall>d \<in> set pieces. whole_mm (lengthMm d)"
    and "p \<in> set (packMaterial mat pieces)"
  shows "val (pipeStockLengthMm p) =
     val FIXED_WASTE + sum_list (map (\<lambda>c. val (lengthMm c)) (cuts p)) +
     val KERF * (of_nat (length (cuts p)) - 1) + val (remainingMm p)"
    and "is_fin (pipeStockLengthMm p)" and "\<forall>c \<in> set (cuts p). is_fin (lengthMm c)"
proof -
  from assms obtain q where q: "bin_ok mat q"
    and p: "p = q\<lparr>remainingMm := Fin (of_int (int_mm (remainingMm q) + 2))\<rparr>"
    by (rule packMaterial_member)
  have r: "val (remainingMm p) = val (remainingMm q) + 2"
    by (simp add: p bin_ok_val [OF assms(1) q])
  have c: "cuts p = cuts q" and s: "pipeStockLengthMm p = pipeStockLengthMm q"
    by (simp_all add: p)
  from bin_ok_conservation_val [OF assms(1) q]
  show "val (pipeStockLengthMm p) =
     val FIXED_WASTE + sum_list (map (\<lambda>c. val (lengthMm c)) (cuts p)) +
     val KERF * (of_nat (length (cuts p)) - 1) + val (remainingMm p)"
    by (simp add: c s r KERF_def algebra_simps)
  show "is_fin (pipeStockLengthMm p)"
    unfolding s bin_okD(2) [OF q] by (rule whole_mm_fin [OF assms(1)])
  show "\<forall>c \<in> set (cuts p). is_fin (lengthMm c)"
    using bin_okD(4) [OF q] unfolding c by (auto simp: list_all_iff intro: whole_mm_fin)
qed

section \<open>Properties of the plan metrics\<close>

subsection \<open>Entries and cuts of a plan\<close>

lemma Object_entries_set: "set (Object_entries obj) = set obj"
  by (auto simp: Object_entries_def)

lemma Object_entries_mset: "mset (Object_entries obj) = mset obj"
  by (simp add: Object_entries_def multiset_partition [symmetric])

lemma plan_cuts_member:
  "(k, pipes) \<in> set plan \<Longrightarrow> p \<in> set pipes \<Longrightarrow> c \<in> set (cuts p) \<Longrightarrow> c \<in> set (plan_cuts plan)"
  by (force simp: plan_cuts_def all_cuts_def)

lemma optimize_cut_demand:
  assumes "(k, pipes) \<in> set (optimize ms ds)" and "p \<in> set pipes" and "c \<in> set (cuts p)"
  shows "c \<in> set ds"
proof -
  from assms have "c \<in> set (plan_cuts (optimize ms ds))" by (rule plan_cuts_member)
  then have "c \<in># mset (plan_cuts (optimize ms ds))" by simp
  then have "c \<in># mset (filter (assignable (materialMap ms)) ds)" by (simp only: optimize_cuts)
  then show ?thesis by simp
qed

lemma optimize_Nil: "optimize ms [] = []"
  by (simp add: optimize_def)

lemma optimize_keys_known: "\<forall>e \<in> set (optimize ms ds). materialMap ms (fst e) \<noteq> None"
proof
  fix e assume e: "e \<in> set (optimize ms ds)"
  obtain k pipes where ek: "e = (k, pipes)" by (cases e)
  from e [unfolded ek] obtain mat where "materialMap ms k = Some mat"
    by (rule optimize_member)
  with ek show "materialMap ms (fst e) \<noteq> None" by simp
qed

subsection \<open>First occurrences\<close>

lemma first_seen_Nil: "first_seen [] = []"
  by (simp add: first_seen_def)

lemma first_seen_snoc:
  "first_seen (xs @ [x]) = (if x \<in> set xs then first_seen xs else first_seen xs @ [x])"
  by (simp add: first_seen_def)

lemma first_seen_set: "set (first_seen xs) = set xs"
  by (simp add: first_seen_def)

lemma first_seen_distinct: "distinct (first_seen xs)"
  by (simp add: first_seen_def)

lemma first_seen_map:
  "inj_on f (set xs) \<Longrightarrow> first_seen (map f xs) = map f (first_seen xs)"
proof (induction xs rule: rev_induct)
  case Nil
  then show ?case by (simp add: first_seen_Nil)
next
  case (snoc x xs)
  from snoc.prems have inj: "inj_on f (set xs)" and
    mem: "f x \<in> f ` set xs \<longleftrightarrow> x \<in> set xs"
    by (auto simp: inj_on_def)
  from snoc.IH [OF inj] mem show ?case
    by (simp add: first_seen_snoc)
qed

subsection \<open>Maps as association lists over their keys\<close>

lemma map_of_keys:
  "map_of (map (\<lambda>k. (k, f k)) ks) k = (if k \<in> set ks then Some (f k) else None)"
  by (induction ks) simp_all

lemma update_keys_present:
  "distinct ks \<Longrightarrow> k \<in> set ks \<Longrightarrow>
   AList.update k v (map (\<lambda>k. (k, f k)) ks) = map (\<lambda>k'. (k', if k' = k then v else f k')) ks"
proof (induction ks)
  case Nil
  then show ?case by simp
next
  case (Cons a ks)
  show ?case
  proof (cases "a = k")
    case True
    with Cons.prems have "k \<notin> set ks" by simp
    then have "map (\<lambda>k'. (k', if k' = k then v else f k')) ks = map (\<lambda>k. (k, f k)) ks"
      by (intro map_cong refl) auto
    with True show ?thesis by simp
  next
    case False
    with Cons show ?thesis by simp
  qed
qed

lemma update_keys_absent:
  "k \<notin> set ks \<Longrightarrow>
   AList.update k v (map (\<lambda>k. (k, f k)) ks) = map (\<lambda>k. (k, f k)) ks @ [(k, v)]"
  by (rule update_fresh) (simp add: image_image)

subsection \<open>aggregateDemands\<close>

lemma aggregate_loop_fold: "aggregate_loop ds mp = fold aggregate_step ds mp"
proof (induction ds arbitrary: mp)
  case Nil
  then show ?case by simp
next
  case (Cons d ds)
  show ?case
    by (cases "map_of mp (demand_key d)") (simp_all add: Cons.IH aggregate_step_def Let_def)
qed

lemma group_of_snoc_other:
  "demand_key d \<noteq> k \<Longrightarrow> group_of (ds @ [d]) k = group_of ds k"
  by (simp add: group_of_def)

lemma group_of_snoc_present:
  assumes "demand_key d \<in> demand_key ` set ds"
  shows "group_of (ds @ [d]) (demand_key d) =
     (group_of ds (demand_key d))
       \<lparr>aggCount := aggCount (group_of ds (demand_key d)) + 1,
        ids := ids (group_of ds (demand_key d)) @ [did d]\<rparr>"
proof -
  from assms obtain e where "e \<in> set ds" and "demand_key e = demand_key d"
    by (metis imageE)
  then have "filter (\<lambda>e. demand_key e = demand_key d) ds \<noteq> []"
    by (auto simp: filter_empty_conv)
  then show ?thesis by (simp add: group_of_def Let_def)
qed

lemma group_of_snoc_absent:
  assumes "demand_key d \<notin> demand_key ` set ds"
  shows "group_of (ds @ [d]) (demand_key d) =
     \<lparr>key = demand_key d, aggProject = project d, aggMaterialId = materialId d,
      aggLengthMm = lengthMm d, aggCount = 1, ids = [did d]\<rparr>"
proof -
  from assms have "\<And>e. e \<in> set ds \<Longrightarrow> demand_key e \<noteq> demand_key d"
    by (metis imageI)
  then have "filter (\<lambda>e. demand_key e = demand_key d) ds = []"
    by (simp add: filter_empty_conv)
  then show ?thesis by (simp add: group_of_def Let_def)
qed

lemma aggregate_step_closed:
  "aggregate_step d (map (\<lambda>k. (k, group_of ds k)) (first_seen (map demand_key ds))) =
   map (\<lambda>k. (k, group_of (ds @ [d]) k)) (first_seen (map demand_key (ds @ [d])))"
proof (cases "demand_key d \<in> demand_key ` set ds")
  case True
  let ?K = "first_seen (map demand_key ds)"
  let ?G = "(group_of ds (demand_key d))
       \<lparr>aggCount := aggCount (group_of ds (demand_key d)) + 1,
        ids := ids (group_of ds (demand_key d)) @ [did d]\<rparr>"
  have inK: "demand_key d \<in> set ?K" using True by (simp add: first_seen_set)
  have look: "map_of (map (\<lambda>k. (k, group_of ds k)) ?K) (demand_key d) =
      Some (group_of ds (demand_key d))"
    using inK by (simp add: map_of_keys)
  have "aggregate_step d (map (\<lambda>k. (k, group_of ds k)) ?K) =
      AList.update (demand_key d) ?G (map (\<lambda>k. (k, group_of ds k)) ?K)"
    by (simp add: aggregate_step_def look)
  also have "\<dots> = map (\<lambda>k'. (k', if k' = demand_key d then ?G else group_of ds k')) ?K"
    by (rule update_keys_present [OF first_seen_distinct inK])
  also have "\<dots> = map (\<lambda>k. (k, group_of (ds @ [d]) k)) ?K"
  proof (rule map_cong [OF refl])
    fix k' assume "k' \<in> set ?K"
    show "(k', if k' = demand_key d then ?G else group_of ds k') = (k', group_of (ds @ [d]) k')"
    proof (cases "k' = demand_key d")
      case True
      with group_of_snoc_present [OF \<open>demand_key d \<in> demand_key ` set ds\<close>]
      show ?thesis by simp
    next
      case False
      then have "demand_key d \<noteq> k'" by simp
      from group_of_snoc_other [OF this] False show ?thesis by simp
    qed
  qed
  finally have step: "aggregate_step d (map (\<lambda>k. (k, group_of ds k)) ?K) =
      map (\<lambda>k. (k, group_of (ds @ [d]) k)) ?K" .
  have "first_seen (map demand_key (ds @ [d])) = ?K"
    using True by (simp add: first_seen_snoc)
  with step show ?thesis by simp
next
  case False
  let ?K = "first_seen (map demand_key ds)"
  let ?N = "\<lparr>key = demand_key d, aggProject = project d, aggMaterialId = materialId d,
      aggLengthMm = lengthMm d, aggCount = 1, ids = [did d]\<rparr>"
  have notK: "demand_key d \<notin> set ?K" using False by (simp add: first_seen_set)
  have look: "map_of (map (\<lambda>k. (k, group_of ds k)) ?K) (demand_key d) = None"
    using notK by (simp add: map_of_keys)
  have "aggregate_step d (map (\<lambda>k. (k, group_of ds k)) ?K) =
      AList.update (demand_key d) ?N (map (\<lambda>k. (k, group_of ds k)) ?K)"
    by (simp add: aggregate_step_def look)
  also have "\<dots> = map (\<lambda>k. (k, group_of ds k)) ?K @ [(demand_key d, ?N)]"
    by (rule update_keys_absent [OF notK])
  finally have step: "aggregate_step d (map (\<lambda>k. (k, group_of ds k)) ?K) =
      map (\<lambda>k. (k, group_of ds k)) ?K @ [(demand_key d, ?N)]" .
  have old: "map (\<lambda>k. (k, group_of ds k)) ?K = map (\<lambda>k. (k, group_of (ds @ [d]) k)) ?K"
  proof (rule map_cong [OF refl])
    fix k' assume "k' \<in> set ?K"
    with notK have "demand_key d \<noteq> k'" by auto
    from group_of_snoc_other [OF this]
    show "(k', group_of ds k') = (k', group_of (ds @ [d]) k')" by simp
  qed
  have new: "group_of (ds @ [d]) (demand_key d) = ?N"
    by (rule group_of_snoc_absent [OF False])
  have "first_seen (map demand_key (ds @ [d])) = ?K @ [demand_key d]"
    using False by (simp add: first_seen_snoc)
  then have fin: "map (\<lambda>k. (k, group_of (ds @ [d]) k)) (first_seen (map demand_key (ds @ [d]))) =
      map (\<lambda>k. (k, group_of (ds @ [d]) k)) ?K @ [(demand_key d, ?N)]"
    by (simp add: new)
  note step
  also have "map (\<lambda>k. (k, group_of ds k)) ?K @ [(demand_key d, ?N)] =
      map (\<lambda>k. (k, group_of (ds @ [d]) k)) ?K @ [(demand_key d, ?N)]"
    by (simp only: old)
  also note fin [symmetric]
  finally show ?thesis .
qed

lemma aggregate_loop_closed:
  "aggregate_loop ds [] = map (\<lambda>k. (k, group_of ds k)) (first_seen (map demand_key ds))"
  unfolding aggregate_loop_fold
proof (induction ds rule: rev_induct)
  case Nil
  then show ?case by (simp add: first_seen_Nil)
next
  case (snoc d ds)
  have "fold aggregate_step (ds @ [d]) [] = aggregate_step d (fold aggregate_step ds [])"
    by simp
  also have "\<dots> = aggregate_step d (map (\<lambda>k. (k, group_of ds k)) (first_seen (map demand_key ds)))"
    by (simp only: snoc.IH)
  finally show ?case by (simp only: aggregate_step_closed)
qed

lemma aggregateDemands_closed:
  "aggregateDemands ds = map (group_of ds) (first_seen (map demand_key ds))"
  by (simp add: aggregateDemands_def aggregate_loop_closed comp_def)

subsection \<open>The key of a demand\<close>

lemma split_at_first:
  "x \<notin> set xs \<Longrightarrow> x \<notin> set xs' \<Longrightarrow> xs @ x # ys = xs' @ x # ys' \<Longrightarrow> xs = xs' \<and> ys = ys'"
proof (induction xs arbitrary: xs')
  case Nil
  then show ?case by (cases xs') auto
next
  case (Cons a xs)
  then show ?case by (cases xs') auto
qed

lemma demand_key_of: "demand_key d = key_of (triple d)"
  by (simp add: demand_key_def key_of_def triple_def)

lemma key_of_inject:
  assumes a: "CHR ''|'' \<notin> set a" and a': "CHR ''|'' \<notin> set a'"
    and eq: "key_of (a, p, l) = key_of (a', p', l')"
  shows "(a, p, l) = (a', p', l')"
proof -
  have na: "Ch CHR ''|'' \<notin> set (map Ch a)" and na': "Ch CHR ''|'' \<notin> set (map Ch a')"
    using a a' by auto
  from eq have "map Ch a @ Ch CHR ''|'' # (map Ch p @ [Ch CHR ''|'', Num l]) =
      map Ch a' @ Ch CHR ''|'' # (map Ch p' @ [Ch CHR ''|'', Num l'])"
    by (simp add: key_of_def str_def)
  from split_at_first [OF na na' this]
  have 1: "map Ch a = map Ch a'"
    and 2: "map Ch p @ [Ch CHR ''|'', Num l] = map Ch p' @ [Ch CHR ''|'', Num l']"
    by simp_all
  have inj: "inj Ch" by (simp add: inj_on_def)
  from 1 inj have "a = a'" by simp
  moreover from 2 have "map Ch p = map Ch p' \<and> l = l'" by simp
  with inj have "p = p'" and "l = l'" by simp_all
  ultimately show ?thesis by simp
qed

lemma demand_key_inject:
  assumes "CHR ''|'' \<notin> set (materialId d)" and "CHR ''|'' \<notin> set (materialId e)"
  shows "demand_key d = demand_key e \<longleftrightarrow> triple d = triple e"
proof
  assume "demand_key d = demand_key e"
  then have "key_of (materialId d, project d, lengthMm d) =
      key_of (materialId e, project e, lengthMm e)"
    by (simp add: demand_key_of triple_def)
  from key_of_inject [OF assms this] show "triple d = triple e"
    by (simp add: triple_def)
next
  assume "triple d = triple e"
  then show "demand_key d = demand_key e" by (simp add: demand_key_of)
qed

lemma key_of_inj_on:
  assumes "\<forall>d \<in> set ds. CHR ''|'' \<notin> set (materialId d)"
  shows "inj_on key_of (set (map triple ds))"
proof (rule inj_onI)
  fix s t assume s: "s \<in> set (map triple ds)" and t: "t \<in> set (map triple ds)"
    and eq: "key_of s = key_of t"
  from s obtain d where d: "d \<in> set ds" "s = triple d" by auto
  from t obtain e where e: "e \<in> set ds" "t = triple e" by auto
  from d e assms have "CHR ''|'' \<notin> set (materialId d)" "CHR ''|'' \<notin> set (materialId e)"
    by simp_all
  from demand_key_inject [OF this] eq d e show "s = t"
    by (simp add: demand_key_of)
qed

subsection \<open>The groups\<close>

lemma group_of_fields:
  assumes "d \<in> set ds"
  shows "key (group_of ds (demand_key d)) = demand_key d"
    and "aggCount (group_of ds (demand_key d)) =
      length (filter (\<lambda>e. demand_key e = demand_key d) ds)"
    and "ids (group_of ds (demand_key d)) =
      map did (filter (\<lambda>e. demand_key e = demand_key d) ds)"
    and "\<exists>d0 \<in> set ds. demand_key d0 = demand_key d \<and>
      agg_triple (group_of ds (demand_key d)) = triple d0"
proof -
  let ?same = "filter (\<lambda>e. demand_key e = demand_key d) ds"
  from assms have "d \<in> set ?same" by simp
  then have ne: "?same \<noteq> []" by (metis empty_iff empty_set)
  then have "hd ?same \<in> set ?same" by (rule hd_in_set)
  then have h: "hd ?same \<in> set ds" "demand_key (hd ?same) = demand_key d" by simp_all
  show "key (group_of ds (demand_key d)) = demand_key d"
    by (simp add: group_of_def Let_def)
  show "aggCount (group_of ds (demand_key d)) = length ?same"
    by (simp add: group_of_def Let_def)
  show "ids (group_of ds (demand_key d)) = map did ?same"
    by (simp add: group_of_def Let_def)
  have "agg_triple (group_of ds (demand_key d)) = triple (hd ?same)"
    by (simp add: group_of_def Let_def agg_triple_def triple_def)
  with h show "\<exists>d0 \<in> set ds. demand_key d0 = demand_key d \<and>
      agg_triple (group_of ds (demand_key d)) = triple d0"
    by blast
qed

lemma aggregateDemands_keys:
  "map key (aggregateDemands ds) = first_seen (map demand_key ds)"
proof -
  have "map key (map (group_of ds) (first_seen (map demand_key ds))) =
      map (\<lambda>k. k) (first_seen (map demand_key ds))"
    unfolding map_map by (rule map_cong [OF refl]) (simp add: group_of_def Let_def)
  then show ?thesis by (simp add: aggregateDemands_closed)
qed

lemma aggregateDemands_member:
  assumes "g \<in> set (aggregateDemands ds)"
  obtains d where "d \<in> set ds" and "g = group_of ds (demand_key d)"
proof -
  from assms obtain k where "k \<in> set (first_seen (map demand_key ds))" and g: "g = group_of ds k"
    unfolding aggregateDemands_closed by auto
  then have "k \<in> demand_key ` set ds" by (simp add: first_seen_set)
  then obtain d where "d \<in> set ds" and "k = demand_key d" by auto
  with g that show thesis by simp
qed

lemma aggregateDemands_group:
  assumes "d \<in> set ds"
  shows "group_of ds (demand_key d) \<in> set (aggregateDemands ds)"
  using assms unfolding aggregateDemands_closed by (simp add: first_seen_set)

lemma group_of_triple:
  assumes bar: "\<forall>d \<in> set ds. CHR ''|'' \<notin> set (materialId d)" and d: "d \<in> set ds"
  shows "agg_triple (group_of ds (demand_key d)) = triple d"
proof -
  from group_of_fields(4) [OF d] obtain d0 where d0: "d0 \<in> set ds"
    and k: "demand_key d0 = demand_key d"
    and t: "agg_triple (group_of ds (demand_key d)) = triple d0"
    by blast
  from bar d d0 have "CHR ''|'' \<notin> set (materialId d0)" "CHR ''|'' \<notin> set (materialId d)"
    by simp_all
  from demand_key_inject [OF this] k have "triple d0 = triple d" by simp
  with t show ?thesis by simp
qed

lemma filter_by_triple:
  assumes bar: "\<forall>d \<in> set ds. CHR ''|'' \<notin> set (materialId d)" and d: "d \<in> set ds"
  shows "filter (\<lambda>e. demand_key e = demand_key d) ds = filter (\<lambda>e. triple e = triple d) ds"
proof (rule filter_cong [OF refl])
  fix e assume "e \<in> set ds"
  with bar d have "CHR ''|'' \<notin> set (materialId e)" "CHR ''|'' \<notin> set (materialId d)"
    by simp_all
  then show "(demand_key e = demand_key d) = (triple e = triple d)"
    by (rule demand_key_inject)
qed

lemma aggregateDemands_triples:
  assumes bar: "\<forall>d \<in> set ds. CHR ''|'' \<notin> set (materialId d)"
  shows "map agg_triple (aggregateDemands ds) = first_seen (map triple ds)"
proof -
  have keys: "map demand_key ds = map key_of (map triple ds)"
    by (simp add: demand_key_of)
  have fs: "first_seen (map demand_key ds) = map key_of (first_seen (map triple ds))"
    unfolding keys by (rule first_seen_map [OF key_of_inj_on [OF bar]])
  have "map agg_triple (aggregateDemands ds) =
      map (\<lambda>t. agg_triple (group_of ds (key_of t))) (first_seen (map triple ds))"
    by (simp add: aggregateDemands_closed fs comp_def)
  also have "\<dots> = map (\<lambda>t. t) (first_seen (map triple ds))"
  proof (rule map_cong [OF refl])
    fix t assume "t \<in> set (first_seen (map triple ds))"
    then have "t \<in> triple ` set ds" by (simp add: first_seen_set)
    then obtain d where d: "d \<in> set ds" and t: "t = triple d" by auto
    from group_of_triple [OF bar d] t
    show "agg_triple (group_of ds (key_of t)) = t" by (simp add: demand_key_of)
  qed
  finally show ?thesis by simp
qed

subsection \<open>Assigned and too-long demands\<close>

lemma plan_cuts_all_bins: "plan_cuts plan = concat (map cuts (all_bins plan))"
  by (induction plan) (simp_all add: plan_cuts_def all_bins_def all_cuts_def)

lemma all_bins_member:
  "p \<in> set (all_bins plan) \<longleftrightarrow> (\<exists>(k, pipes) \<in> set plan. p \<in> set pipes)"
  by (force simp: all_bins_def)

lemma one_list_of_distinct_concat:
  "distinct (concat xss) \<Longrightarrow> x \<in> set (concat xss) \<Longrightarrow>
   length (filter (\<lambda>xs. x \<in> set xs) xss) = 1"
proof (induction xss)
  case Nil
  then show ?case by simp
next
  case (Cons xs xss)
  show ?case
  proof (cases "x \<in> set xs")
    case True
    with Cons.prems(1) have "x \<notin> set (concat xss)" by auto
    then have "filter (\<lambda>xs. x \<in> set xs) xss = []"
      by (auto simp: filter_empty_conv)
    with True show ?thesis by simp
  next
    case False
    with Cons.prems have "distinct (concat xss)" and "x \<in> set (concat xss)" by auto
    with Cons.IH False show ?thesis by simp
  qed
qed

lemma filter_map_cuts:
  "length (filter (\<lambda>xs. x \<in> set xs) (map cuts bins)) =
   length (filter (\<lambda>p. x \<in> set (cuts p)) bins)"
  by (induction bins) simp_all

lemma no_bin_iff:
  "filter (\<lambda>p. d \<in> set (cuts p)) (all_bins plan) = [] \<longleftrightarrow> d \<notin> set (plan_cuts plan)"
  by (auto simp: plan_cuts_all_bins filter_empty_conv)

lemma optimize_cut_key:
  assumes kp: "(k, pipes) \<in> set (optimize ms ds)" and p: "p \<in> set pipes"
    and c: "c \<in> set (cuts p)"
  shows "materialId c = k"
proof -
  from kp obtain m where pipes: "pipes = packMaterial m (filter (\<lambda>d. materialId d = k) ds)"
    by (rule optimize_member)
  from p c have "c \<in> set (all_cuts pipes)" by (auto simp: all_cuts_def)
  then have "c \<in># mset (all_cuts (packMaterial m (filter (\<lambda>d. materialId d = k) ds)))"
    by (simp add: pipes)
  then have "c \<in> set (filter (\<lambda>d. materialId d = k) ds)"
    unfolding packMaterial_all_cuts by simp
  then show ?thesis by simp
qed

lemma tooLong_member:
  "d \<in> set (tooLong ms ds) \<longleftrightarrow>
   d \<in> set ds \<and> (\<exists>mat. materialMap ms (materialId d) = Some mat \<and> skipped mat d)"
  by (auto simp: tooLong_def skipped_def split: option.splits)

lemma aggregateDemands_ids:
  assumes "g \<in> set (aggregateDemands ds)" and "i \<in> set (ids g)"
  shows "i \<in> did ` set ds"
proof -
  from assms(1) obtain d where d: "d \<in> set ds" and g: "g = group_of ds (demand_key d)"
    by (rule aggregateDemands_member)
  from group_of_fields(3) [OF d] g assms(2)
  have "i \<in> set (map did (filter (\<lambda>e. demand_key e = demand_key d) ds))" by simp
  then show ?thesis by auto
qed

lemma aggregateDemands_has_id:
  assumes "d \<in> set ds"
  shows "\<exists>g \<in> set (aggregateDemands ds). key g = demand_key d \<and> did d \<in> set (ids g)"
proof -
  have "group_of ds (demand_key d) \<in> set (aggregateDemands ds)"
    by (rule aggregateDemands_group [OF assms])
  moreover have "key (group_of ds (demand_key d)) = demand_key d"
    by (rule group_of_fields(1) [OF assms])
  moreover have "did d \<in> set (ids (group_of ds (demand_key d)))"
    unfolding group_of_fields(3) [OF assms] using assms by simp
  ultimately show ?thesis by blast
qed

subsection \<open>Joined labels\<close>

lemma formatMm_label: "label (formatMm mm)"
  by (simp add: formatMm_def label_def str_def Let_def)


lemma join_Cons: "join (x # xs) sep = x @ after_first xs sep"
  by (cases xs) (simp_all add: after_first_def)

lemma after_first_head:
  "after_first xs (str '' + '') = [] \<or> hd (after_first xs (str '' + '')) = Ch CHR '' ''"
  by (simp add: after_first_def str_def)

lemma label_append_inject:
  assumes "label a" and "label b" and "a @ r = b @ r'"
    and "r = [] \<or> hd r = Ch CHR '' ''" and "r' = [] \<or> hd r' = Ch CHR '' ''"
  shows "a = b \<and> r = r'"
proof -
  from assms(1) consider u where "a = [Num u, Ch CHR '' '', Ch CHR ''m'']"
    | u where "a = [Num u, Ch CHR '' '', Ch CHR ''m'', Ch CHR ''m'']"
    by (auto simp: label_def)
  then show ?thesis
  proof cases
    case 1
    from assms(2) consider v where "b = [Num v, Ch CHR '' '', Ch CHR ''m'']"
      | v where "b = [Num v, Ch CHR '' '', Ch CHR ''m'', Ch CHR ''m'']"
      by (auto simp: label_def)
    then show ?thesis
    proof cases
      case 1
      with \<open>a = [Num u, Ch CHR '' '', Ch CHR ''m'']\<close> assms(3) show ?thesis by simp
    next
      case 2
      with \<open>a = [Num u, Ch CHR '' '', Ch CHR ''m'']\<close> assms(3)
      have "r = Ch CHR ''m'' # r'" by simp
      with assms(4) show ?thesis by simp
    qed
  next
    case 2
    from assms(2) consider v where "b = [Num v, Ch CHR '' '', Ch CHR ''m'']"
      | v where "b = [Num v, Ch CHR '' '', Ch CHR ''m'', Ch CHR ''m'']"
      by (auto simp: label_def)
    then show ?thesis
    proof cases
      case 1
      with \<open>a = [Num u, Ch CHR '' '', Ch CHR ''m'', Ch CHR ''m'']\<close> assms(3)
      have "r' = Ch CHR ''m'' # r" by simp
      with assms(5) show ?thesis by simp
    next
      case 2
      with \<open>a = [Num u, Ch CHR '' '', Ch CHR ''m'', Ch CHR ''m'']\<close> assms(3) show ?thesis by simp
    qed
  qed
qed

lemma label_nonempty: "label a \<Longrightarrow> a \<noteq> []"
  by (auto simp: label_def)

lemma join_labels_inject:
  "list_all label xs \<Longrightarrow> list_all label ys \<Longrightarrow>
   join xs (str '' + '') = join ys (str '' + '') \<Longrightarrow> xs = ys"
proof (induction xs arbitrary: ys)
  case Nil
  show ?case
  proof (cases ys)
    case Nil
    then show ?thesis by simp
  next
    case (Cons y ys')
    with Nil.prems have "label y" and "y @ after_first ys' (str '' + '') = []"
      by (simp_all add: join_Cons)
    with label_nonempty show ?thesis by simp
  qed
next
  case (Cons x xs)
  show ?case
  proof (cases ys)
    case Nil
    with Cons.prems have "label x" and "x @ after_first xs (str '' + '') = []"
      by (simp_all add: join_Cons)
    with label_nonempty show ?thesis by simp
  next
    case (Cons y ys')
    with Cons.prems have lx: "label x" and ly: "label y"
      and lxs: "list_all label xs" and lys: "list_all label ys'"
      and eq: "x @ after_first xs (str '' + '') = y @ after_first ys' (str '' + '')"
      by (simp_all add: join_Cons)
    from label_append_inject [OF lx ly eq after_first_head after_first_head]
    have xy: "x = y" and rest: "after_first xs (str '' + '') = after_first ys' (str '' + '')"
      by simp_all
    have "xs = ys'"
    proof (cases "xs = []")
      case True
      with rest show ?thesis by (cases "ys' = []") (simp_all add: after_first_def str_def)
    next
      case False
      with rest have "ys' \<noteq> []" by (auto simp: after_first_def str_def)
      with rest False have "join xs (str '' + '') = join ys' (str '' + '')"
        by (simp add: after_first_def)
      from Cons.IH [OF lxs lys this] show ?thesis .
    qed
    with xy Cons show ?thesis by simp
  qed
qed

lemma pattern_key_formatted: "pattern_key p = join (formatted p) (str '' + '')"
  by (simp add: pattern_key_def formatted_def)

lemma formatted_labels: "list_all label (formatted p)"
  by (simp add: formatted_def list_all_iff formatMm_label)

lemma pattern_key_inject: "pattern_key p = pattern_key q \<longleftrightarrow> formatted p = formatted q"
proof
  assume "pattern_key p = pattern_key q"
  then have "join (formatted p) (str '' + '') = join (formatted q) (str '' + '')"
    by (simp only: pattern_key_formatted)
  from join_labels_inject [OF formatted_labels formatted_labels this]
  show "formatted p = formatted q" .
next
  assume "formatted p = formatted q"
  then show "pattern_key p = pattern_key q" by (simp only: pattern_key_formatted)
qed

subsection \<open>Pattern counts\<close>

lemma pattern_loop_fold: "pattern_loop ps pc = fold pattern_step ps pc"
  by (induction ps arbitrary: pc) (simp_all add: pattern_step_def Let_def)

lemma pattern_count_snoc:
  "pattern_count (ps @ [p]) k = (if pattern_key p = k then pattern_count ps k + 1 else pattern_count ps k)"
  by (simp add: pattern_count_def)

lemma pattern_count_absent:
  assumes "k \<notin> pattern_key ` set ps"
  shows "pattern_count ps k = 0"
proof -
  from assms have "\<And>q. q \<in> set ps \<Longrightarrow> pattern_key q \<noteq> k" by (metis imageI)
  then have "filter (\<lambda>p. pattern_key p = k) ps = []" by (simp add: filter_empty_conv)
  then show ?thesis by (simp add: pattern_count_def)
qed

lemma pattern_step_closed:
  "pattern_step p (map (\<lambda>k. (k, pattern_count ps k)) (first_seen (map pattern_key ps))) =
   map (\<lambda>k. (k, pattern_count (ps @ [p]) k)) (first_seen (map pattern_key (ps @ [p])))"
proof (cases "pattern_key p \<in> pattern_key ` set ps")
  case True
  let ?K = "first_seen (map pattern_key ps)"
  have inK: "pattern_key p \<in> set ?K" using True by (simp add: first_seen_set)
  have look: "map_of (map (\<lambda>k. (k, pattern_count ps k)) ?K) (pattern_key p) =
      Some (pattern_count ps (pattern_key p))"
    using inK by (simp add: map_of_keys)
  have "pattern_step p (map (\<lambda>k. (k, pattern_count ps k)) ?K) =
      AList.update (pattern_key p) (pattern_count ps (pattern_key p) + 1)
        (map (\<lambda>k. (k, pattern_count ps k)) ?K)"
    by (simp add: pattern_step_def look)
  also have "\<dots> = map (\<lambda>k'. (k', if k' = pattern_key p then pattern_count ps (pattern_key p) + 1
      else pattern_count ps k')) ?K"
    by (rule update_keys_present [OF first_seen_distinct inK])
  also have "\<dots> = map (\<lambda>k. (k, pattern_count (ps @ [p]) k)) ?K"
    by (rule map_cong [OF refl]) (auto simp: pattern_count_snoc)
  finally have step: "pattern_step p (map (\<lambda>k. (k, pattern_count ps k)) ?K) =
      map (\<lambda>k. (k, pattern_count (ps @ [p]) k)) ?K" .
  have "first_seen (map pattern_key (ps @ [p])) = ?K"
    using True by (simp add: first_seen_snoc)
  with step show ?thesis by simp
next
  case False
  let ?K = "first_seen (map pattern_key ps)"
  have notK: "pattern_key p \<notin> set ?K" using False by (simp add: first_seen_set)
  have look: "map_of (map (\<lambda>k. (k, pattern_count ps k)) ?K) (pattern_key p) = None"
    using notK by (simp add: map_of_keys)
  have "pattern_step p (map (\<lambda>k. (k, pattern_count ps k)) ?K) =
      AList.update (pattern_key p) 1 (map (\<lambda>k. (k, pattern_count ps k)) ?K)"
    by (simp add: pattern_step_def look)
  also have "\<dots> = map (\<lambda>k. (k, pattern_count ps k)) ?K @ [(pattern_key p, 1)]"
    by (rule update_keys_absent [OF notK])
  finally have step: "pattern_step p (map (\<lambda>k. (k, pattern_count ps k)) ?K) =
      map (\<lambda>k. (k, pattern_count ps k)) ?K @ [(pattern_key p, 1)]" .
  have old: "map (\<lambda>k. (k, pattern_count ps k)) ?K = map (\<lambda>k. (k, pattern_count (ps @ [p]) k)) ?K"
  proof (rule map_cong [OF refl])
    fix k' assume "k' \<in> set ?K"
    with notK have "pattern_key p \<noteq> k'" by auto
    then show "(k', pattern_count ps k') = (k', pattern_count (ps @ [p]) k')"
      by (simp add: pattern_count_snoc)
  qed
  have new: "pattern_count (ps @ [p]) (pattern_key p) = 1"
    using pattern_count_absent [OF False] by (simp add: pattern_count_snoc)
  have "first_seen (map pattern_key (ps @ [p])) = ?K @ [pattern_key p]"
    using False by (simp add: first_seen_snoc)
  then have fin: "map (\<lambda>k. (k, pattern_count (ps @ [p]) k)) (first_seen (map pattern_key (ps @ [p]))) =
      map (\<lambda>k. (k, pattern_count (ps @ [p]) k)) ?K @ [(pattern_key p, 1)]"
    by (simp add: new)
  note step
  also have "map (\<lambda>k. (k, pattern_count ps k)) ?K @ [(pattern_key p, 1)] =
      map (\<lambda>k. (k, pattern_count (ps @ [p]) k)) ?K @ [(pattern_key p, 1)]"
    by (simp only: old)
  also note fin [symmetric]
  finally show ?thesis .
qed

lemma patternCounts_closed:
  "patternCounts ps = map (\<lambda>k. (k, pattern_count ps k)) (first_seen (map pattern_key ps))"
  unfolding patternCounts_def pattern_loop_fold
proof (induction ps rule: rev_induct)
  case Nil
  then show ?case by (simp add: first_seen_Nil)
next
  case (snoc p ps)
  have "fold pattern_step (ps @ [p]) [] = pattern_step p (fold pattern_step ps [])"
    by simp
  also have "\<dots> = pattern_step p (map (\<lambda>k. (k, pattern_count ps k)) (first_seen (map pattern_key ps)))"
    by (simp only: snoc.IH)
  finally show ?case by (simp only: pattern_step_closed)
qed

lemma patternCounts_keys: "map fst (patternCounts ps) = first_seen (map pattern_key ps)"
  by (simp add: patternCounts_closed comp_def)

lemma patternCounts_lookup:
  "p \<in> set ps \<Longrightarrow> map_of (patternCounts ps) (pattern_key p) = Some (pattern_count ps (pattern_key p))"
  by (simp add: patternCounts_closed map_of_keys first_seen_set)

lemma summary_loop_rows:
  "summary_loop mm es acc = acc @ concat (map (summary_rows mm) es)"
proof (induction mm es acc rule: summary_loop.induct)
  case (1 mm summary)
  then show ?case by simp
next
  case (2 mm matId pipes rest summary)
  show ?case
  proof (cases "mm matId")
    case None
    with "2.IH"(1) [OF None] show ?thesis by (simp add: summary_rows_def)
  next
    case (Some mat)
    show ?thesis
    proof (cases "length pipes = 0")
      case True
      with "2.IH"(2) [OF Some True] Some show ?thesis
        by (simp add: summary_rows_def patternCounts_def)
    next
      case False
      with "2.IH"(3) [OF Some False] Some show ?thesis
        by (simp add: summary_rows_def)
    qed
  qed
qed

lemma cutSummary_rows:
  "cutSummary ms plan = concat (map (summary_rows (materialMap ms)) (Object_entries plan))"
  by (simp add: cutSummary_def summary_loop_rows)

subsection \<open>The groups of aggregateDemands\<close>

text \<open>
  There is one group per distinct key string, in the order in which the keys are first seen;
  the count of a group is the number of demands with its key, its ids are theirs in the
  order of the input, and its material, project and length are those of such a demand. When
  no material id holds the character \<^verbatim>\<open>|\<close>, two demands have the same key exactly when
  they agree on material id, project and length, and then there is one group per distinct
  triple.
\<close>

lemma aggregateDemands_groups:
  "map key (aggregateDemands ds) = first_seen (map demand_key ds) \<and>
   (\<forall>g \<in> set (aggregateDemands ds).
      aggCount g = length (filter (\<lambda>d. demand_key d = key g) ds) \<and>
      ids g = map did (filter (\<lambda>d. demand_key d = key g) ds) \<and>
      (\<exists>d \<in> set ds. demand_key d = key g \<and> agg_triple g = triple d)) \<and>
   aggregateDemands [] = [] \<and>
   ((\<forall>d \<in> set ds. CHR ''|'' \<notin> set (materialId d)) \<longrightarrow>
      (\<forall>d \<in> set ds. \<forall>e \<in> set ds. demand_key d = demand_key e \<longleftrightarrow> triple d = triple e) \<and>
      map agg_triple (aggregateDemands ds) = first_seen (map triple ds) \<and>
      distinct (map agg_triple (aggregateDemands ds)) \<and>
      set (map agg_triple (aggregateDemands ds)) = triple ` set ds \<and>
      (\<forall>g \<in> set (aggregateDemands ds).
         aggCount g = length (filter (\<lambda>d. triple d = agg_triple g) ds) \<and>
         ids g = map did (filter (\<lambda>d. triple d = agg_triple g) ds)))"
proof (intro conjI impI)
  show "map key (aggregateDemands ds) = first_seen (map demand_key ds)"
    by (rule aggregateDemands_keys)
  show "\<forall>g \<in> set (aggregateDemands ds).
      aggCount g = length (filter (\<lambda>d. demand_key d = key g) ds) \<and>
      ids g = map did (filter (\<lambda>d. demand_key d = key g) ds) \<and>
      (\<exists>d \<in> set ds. demand_key d = key g \<and> agg_triple g = triple d)"
  proof
    fix g assume "g \<in> set (aggregateDemands ds)"
    then obtain d where d: "d \<in> set ds" and g: "g = group_of ds (demand_key d)"
      by (rule aggregateDemands_member)
    from group_of_fields [OF d] g
    show "aggCount g = length (filter (\<lambda>d. demand_key d = key g) ds) \<and>
      ids g = map did (filter (\<lambda>d. demand_key d = key g) ds) \<and>
      (\<exists>d \<in> set ds. demand_key d = key g \<and> agg_triple g = triple d)"
      by simp
  qed
  show "aggregateDemands [] = []"
    by (simp add: aggregateDemands_def)
next
  assume bar: "\<forall>d \<in> set ds. CHR ''|'' \<notin> set (materialId d)"
  show "\<forall>d \<in> set ds. \<forall>e \<in> set ds. demand_key d = demand_key e \<longleftrightarrow> triple d = triple e"
    using bar by (simp add: demand_key_inject)
  show t: "map agg_triple (aggregateDemands ds) = first_seen (map triple ds)"
    by (rule aggregateDemands_triples [OF bar])
  show "distinct (map agg_triple (aggregateDemands ds))"
    unfolding t by (rule first_seen_distinct)
  show "set (map agg_triple (aggregateDemands ds)) = triple ` set ds"
    unfolding t by (simp add: first_seen_set)
  show "\<forall>g \<in> set (aggregateDemands ds).
         aggCount g = length (filter (\<lambda>d. triple d = agg_triple g) ds) \<and>
         ids g = map did (filter (\<lambda>d. triple d = agg_triple g) ds)"
  proof
    fix g assume "g \<in> set (aggregateDemands ds)"
    then obtain d where d: "d \<in> set ds" and g: "g = group_of ds (demand_key d)"
      by (rule aggregateDemands_member)
    have tr: "agg_triple g = triple d"
      unfolding g by (rule group_of_triple [OF bar d])
    have "aggCount g = length (filter (\<lambda>e. triple e = triple d) ds)"
      and "ids g = map did (filter (\<lambda>e. triple e = triple d) ds)"
      unfolding g using group_of_fields(2,3) [OF d] by (simp_all add: filter_by_triple [OF bar d])
    then show "aggCount g = length (filter (\<lambda>d. triple d = agg_triple g) ds) \<and>
         ids g = map did (filter (\<lambda>d. triple d = agg_triple g) ds)"
      unfolding tr by (rule conjI)
  qed
qed

section \<open>The claims\<close>

subsection \<open>C1\<close>




subsection \<open>C2\<close>

text \<open>
  C2 (as the specification states it) is an equation between the lengths of a bin. The code
  computes \<open>remainingMm\<close> in doubles: with the stock length 6000 and the pieces 3839 and
  \<open>2047 + 2^-42\<close> (the form stores this length for the entry \<^verbatim>\<open>2.047\<close> m) the second piece
  needs the double 2049, the bin has \<open>remainingMm = 2\<close> in the plan, and the right-hand side
  of the equation is \<open>6000 + 2^-42\<close>.
\<close>

theorem C2_counterexample:
  "optimize [Mat ''1'' (Fin 6000)]
     [Dem ''2'' ''1'' (Fin 3839), Dem ''3'' ''1'' (Fin (2047 + 1 / 2 ^ 42))] =
     [(''1'', [\<lparr>cuts = [Dem ''2'' ''1'' (Fin 3839), Dem ''3'' ''1'' (Fin (2047 + 1 / 2 ^ 42))],
               remainingMm = Fin 2, pipeStockLengthMm = Fin 6000, usableMm = Fin 5890\<rparr>])] \<and>
   map (\<lambda>p. val FIXED_WASTE + sum_list (map (\<lambda>c. val (lengthMm c)) (cuts p)) +
             val KERF * (of_nat (length (cuts p)) - 1) + val (remainingMm p))
     (all_bins (optimize [Mat ''1'' (Fin 6000)]
        [Dem ''2'' ''1'' (Fin 3839), Dem ''3'' ''1'' (Fin (2047 + 1 / 2 ^ 42))])) =
     [6000 + 1 / 2 ^ 42] \<and>
   map (\<lambda>p. val (pipeStockLengthMm p))
     (all_bins (optimize [Mat ''1'' (Fin 6000)]
        [Dem ''2'' ''1'' (Fin 3839), Dem ''3'' ''1'' (Fin (2047 + 1 / 2 ^ 42))])) = [6000]"
  by code_simp

text \<open>
  C2, amended: conservation for whole millimetres. Every bin of the plan has a cut, and its
  stock length is the fixed waste, the lengths of its cuts, a kerf between two cuts and the
  remaining length. The refund adds \<open>KERF\<close> once to every bin that the packing of a
  material produced (each has a cut); before it, every cut of a bin is charged a kerf.
\<close>

theorem C2_conservation:
  "(whole_lengths ms ds \<longrightarrow>
      (\<forall>(k, pipes) \<in> set (optimize ms ds). \<forall>p \<in> set pipes.
          1 \<le> length (cuts p) \<and>
          is_fin (pipeStockLengthMm p) \<and> is_fin (remainingMm p) \<and>
          (\<forall>c \<in> set (cuts p). is_fin (lengthMm c)) \<and>
          val (pipeStockLengthMm p) =
            val FIXED_WASTE + sum_list (map (\<lambda>c. val (lengthMm c)) (cuts p)) +
            val KERF * (of_nat (length (cuts p)) - 1) + val (remainingMm p))) \<and>
   packMaterial mat pieces =
     map (\<lambda>q. q\<lparr>remainingMm := num_add (remainingMm q) KERF\<rparr>) (pack mat (sort_desc pieces) []) \<and>
   (whole_mm (stockLengthMm mat) \<and> list_all (\<lambda>d. whole_mm (lengthMm d)) pieces \<longrightarrow>
      (\<forall>q \<in> set (pack mat (sort_desc pieces) []).
          1 \<le> length (cuts q) \<and>
          num_add (remainingMm q) KERF = Fin (val (remainingMm q) + val KERF) \<and>
          val (pipeStockLengthMm q) =
            val FIXED_WASTE + sum_list (map (\<lambda>c. val (lengthMm c)) (cuts q)) +
            val KERF * of_nat (length (cuts q)) + val (remainingMm q)))"
proof (intro conjI)
  show "whole_lengths ms ds \<longrightarrow>
      (\<forall>(k, pipes) \<in> set (optimize ms ds). \<forall>p \<in> set pipes.
          1 \<le> length (cuts p) \<and>
          is_fin (pipeStockLengthMm p) \<and> is_fin (remainingMm p) \<and>
          (\<forall>c \<in> set (cuts p). is_fin (lengthMm c)) \<and>
          val (pipeStockLengthMm p) =
            val FIXED_WASTE + sum_list (map (\<lambda>c. val (lengthMm c)) (cuts p)) +
            val KERF * (of_nat (length (cuts p)) - 1) + val (remainingMm p))"
  proof (intro impI ballI, clarify)
    fix k pipes p
    assume w: "whole_lengths ms ds" and kp: "(k, pipes) \<in> set (optimize ms ds)"
      and p: "p \<in> set pipes"
    from w kp obtain m where wm: "whole_mm (stockLengthMm m)"
      and wd: "\<forall>d \<in> set (filter (\<lambda>d. materialId d = k) ds). whole_mm (lengthMm d)"
      and pipes: "pipes = packMaterial m (filter (\<lambda>d. materialId d = k) ds)"
      by (rule optimize_whole)
    from p have pm: "p \<in> set (packMaterial m (filter (\<lambda>d. materialId d = k) ds))"
      by (simp only: pipes)
    have "cuts p \<noteq> []" by (rule packMaterial_nonempty [OF pm])
    then have n: "1 \<le> length (cuts p)" by (cases "cuts p") simp_all
    from n packMaterial_conservation(2) [OF wm wd pm] packMaterial_remaining(1) [OF wm wd pm]
      packMaterial_conservation(3) [OF wm wd pm] packMaterial_conservation(1) [OF wm wd pm]
    show "1 \<le> length (cuts p) \<and>
          is_fin (pipeStockLengthMm p) \<and> is_fin (remainingMm p) \<and>
          (\<forall>c \<in> set (cuts p). is_fin (lengthMm c)) \<and>
          val (pipeStockLengthMm p) =
            val FIXED_WASTE + sum_list (map (\<lambda>c. val (lengthMm c)) (cuts p)) +
            val KERF * (of_nat (length (cuts p)) - 1) + val (remainingMm p)"
      by (intro conjI)
  qed
  show "packMaterial mat pieces =
     map (\<lambda>q. q\<lparr>remainingMm := num_add (remainingMm q) KERF\<rparr>) (pack mat (sort_desc pieces) [])"
    by (rule packMaterial_refund)
  show "whole_mm (stockLengthMm mat) \<and> list_all (\<lambda>d. whole_mm (lengthMm d)) pieces \<longrightarrow>
      (\<forall>q \<in> set (pack mat (sort_desc pieces) []).
          1 \<le> length (cuts q) \<and>
          num_add (remainingMm q) KERF = Fin (val (remainingMm q) + val KERF) \<and>
          val (pipeStockLengthMm q) =
            val FIXED_WASTE + sum_list (map (\<lambda>c. val (lengthMm c)) (cuts q)) +
            val KERF * of_nat (length (cuts q)) + val (remainingMm q))"
  proof (intro impI ballI, elim conjE)
    fix q
    assume wm: "whole_mm (stockLengthMm mat)"
      and wp: "list_all (\<lambda>d. whole_mm (lengthMm d)) pieces"
      and q: "q \<in> set (pack mat (sort_desc pieces) [])"
    have "\<forall>d \<in> set (sort_desc pieces). whole_mm (lengthMm d)"
      using wp by (simp add: list_all_iff sort_desc_set)
    from pack_start_bin_ok [OF wm this q] have ok: "bin_ok mat q" .
    note R = bin_ok_remaining [OF wm ok]
    have n: "1 \<le> length (cuts q)" using bin_okD(1) [OF ok] by (cases "cuts q") simp_all
    have "num_add (Fin (of_int (int_mm (remainingMm q)))) (Fin (of_int 2)) =
        Fin (of_int (int_mm (remainingMm q) + 2))"
      by (rule num_add_small) (use R(2,3) in simp_all)
    then have "num_add (remainingMm q) KERF = Fin (of_int (int_mm (remainingMm q) + 2))"
      unfolding KERF_int by (subst R(1))
    also have "of_int (int_mm (remainingMm q) + 2) = val (remainingMm q) + val KERF"
      by (simp add: bin_ok_val [OF wm ok] KERF_def)
    finally have a: "num_add (remainingMm q) KERF = Fin (val (remainingMm q) + val KERF)" .
    from n a bin_ok_conservation_val [OF wm ok]
    show "1 \<le> length (cuts q) \<and>
          num_add (remainingMm q) KERF = Fin (val (remainingMm q) + val KERF) \<and>
          val (pipeStockLengthMm q) =
            val FIXED_WASTE + sum_list (map (\<lambda>c. val (lengthMm c)) (cuts q)) +
            val KERF * of_nat (length (cuts q)) + val (remainingMm q)"
      by (intro conjI)
  qed
qed

theorem C2_witness:
  "whole_lengths [Mat ''1'' (Fin 6000)]
     [Dem ''2'' ''1'' (Fin 2500), Dem ''3'' ''1'' (Fin 2500), Dem ''4'' ''1'' (Fin 2500)] \<and>
   map (\<lambda>p. val (pipeStockLengthMm p))
     (all_bins (optimize [Mat ''1'' (Fin 6000)]
        [Dem ''2'' ''1'' (Fin 2500), Dem ''3'' ''1'' (Fin 2500), Dem ''4'' ''1'' (Fin 2500)])) =
     [6000, 6000] \<and>
   list_all (\<lambda>p. val (pipeStockLengthMm p) =
        val FIXED_WASTE + sum_list (map (\<lambda>c. val (lengthMm c)) (cuts p)) +
        val KERF * (of_nat (length (cuts p)) - 1) + val (remainingMm p))
     (all_bins (optimize [Mat ''1'' (Fin 6000)]
        [Dem ''2'' ''1'' (Fin 2500), Dem ''3'' ''1'' (Fin 2500), Dem ''4'' ''1'' (Fin 2500)])) \<and>
   map (\<lambda>p. val FIXED_WASTE + sum_list (map (\<lambda>c. val (lengthMm c)) (cuts p)) +
             val KERF * (of_nat (length (cuts p)) - 1) + val (remainingMm p))
     (all_bins (optimize [Mat ''1'' (Fin 6000)]
        [Dem ''2'' ''1'' (Fin 2500), Dem ''3'' ''1'' (Fin 2500), Dem ''4'' ''1'' (Fin 2500)])) =
     [110 + (2500 + 2500) + 2 * (2 - 1) + 888, 110 + 2500 + 2 * (1 - 1) + 3390]"
proof -
  let ?M = "Mat ''1'' (Fin 6000)"
  let ?ds = "[Dem ''2'' ''1'' (Fin 2500), Dem ''3'' ''1'' (Fin 2500), Dem ''4'' ''1'' (Fin 2500)]"
  note T = C2_conservation [where ms = "[?M]" and ds = ?ds and mat = ?M and pieces = ?ds]
  have hw: "whole_lengths [?M] ?ds" by code_simp
  have e1: "map (\<lambda>p. val (pipeStockLengthMm p)) (all_bins (optimize [?M] ?ds)) = [6000, 6000]"
    by code_simp
  have e2: "map (\<lambda>p. val FIXED_WASTE + sum_list (map (\<lambda>c. val (lengthMm c)) (cuts p)) +
             val KERF * (of_nat (length (cuts p)) - 1) + val (remainingMm p))
     (all_bins (optimize [?M] ?ds)) =
     [110 + (2500 + 2500) + 2 * (2 - 1) + 888, 110 + 2500 + 2 * (1 - 1) + 3390]"
    by code_simp
  from T have "whole_lengths [?M] ?ds \<longrightarrow>
      (\<forall>(k, pipes) \<in> set (optimize [?M] ?ds). \<forall>p \<in> set pipes.
          1 \<le> length (cuts p) \<and>
          is_fin (pipeStockLengthMm p) \<and> is_fin (remainingMm p) \<and>
          (\<forall>c \<in> set (cuts p). is_fin (lengthMm c)) \<and>
          val (pipeStockLengthMm p) =
            val FIXED_WASTE + sum_list (map (\<lambda>c. val (lengthMm c)) (cuts p)) +
            val KERF * (of_nat (length (cuts p)) - 1) + val (remainingMm p))"
    by (elim conjE)
  from mp [OF this hw]
  have c1: "list_all (\<lambda>p. val (pipeStockLengthMm p) =
        val FIXED_WASTE + sum_list (map (\<lambda>c. val (lengthMm c)) (cuts p)) +
        val KERF * (of_nat (length (cuts p)) - 1) + val (remainingMm p))
     (all_bins (optimize [?M] ?ds))"
    by (auto simp: list_all_iff all_bins_def)
  from hw e1 c1 e2 show ?thesis by (intro conjI)
qed

subsection \<open>C3\<close>

text \<open>
  C3: scenario 1 of the specification. One material of stock length 6000 and three demands
  of 2500 give two bins: the first with two cuts and 888 left, the second with one cut and
  3390 left.
\<close>

theorem C3_scenario_1:
  "optimize [\<lparr>mid = ''M'', name = ''M'', stockLengthMm = Fin 6000\<rparr>]
     [\<lparr>did = ''a'', project = ''P'', materialId = ''M'', lengthMm = Fin 2500\<rparr>,
      \<lparr>did = ''b'', project = ''P'', materialId = ''M'', lengthMm = Fin 2500\<rparr>,
      \<lparr>did = ''c'', project = ''P'', materialId = ''M'', lengthMm = Fin 2500\<rparr>] =
   [(''M'',
     [\<lparr>cuts = [\<lparr>did = ''a'', project = ''P'', materialId = ''M'', lengthMm = Fin 2500\<rparr>,
               \<lparr>did = ''b'', project = ''P'', materialId = ''M'', lengthMm = Fin 2500\<rparr>],
       remainingMm = Fin 888, pipeStockLengthMm = Fin 6000, usableMm = Fin 5890\<rparr>,
      \<lparr>cuts = [\<lparr>did = ''c'', project = ''P'', materialId = ''M'', lengthMm = Fin 2500\<rparr>],
       remainingMm = Fin 3390, pipeStockLengthMm = Fin 6000, usableMm = Fin 5890\<rparr>])] \<and>
   FIXED_WASTE = Fin 110 \<and> KERF = Fin 2"
  by code_simp

subsection \<open>C5\<close>




subsection \<open>C6\<close>

text \<open>
  C6 (as the specification states it) puts a demand of an existing material into a bin when
  its length is at most \<open>stockLengthMm - FIXED_WASTE\<close>, and into the unassignable set
  otherwise. The code subtracts in doubles: for a stock length of \<open>2^62\<close> mm the difference
  \<open>2^62 - 110\<close> is rounded to \<open>2^62\<close>, and a demand of \<open>2^62\<close> mm, which is longer than
  \<open>2^62 - 110\<close>, is placed in a bin and is not among the too-long pieces.
\<close>

theorem C6_counterexample:
  "optimize [Mat ''1'' (Fin (2 ^ 62))] [Dem ''2'' ''1'' (Fin (2 ^ 62))] =
     [(''1'', [\<lparr>cuts = [Dem ''2'' ''1'' (Fin (2 ^ 62))], remainingMm = Fin 2,
               pipeStockLengthMm = Fin (2 ^ 62), usableMm = Fin (2 ^ 62)\<rparr>])] \<and>
   tooLong [Mat ''1'' (Fin (2 ^ 62))] [Dem ''2'' ''1'' (Fin (2 ^ 62))] = [] \<and>
   val (lengthMm (Dem ''2'' ''1'' (Fin (2 ^ 62)))) >
     val (stockLengthMm (Mat ''1'' (Fin (2 ^ 62)))) - val FIXED_WASTE"
  by code_simp

text \<open>
  C6, amended: every demand is assigned or unassignable, or ignored, for material ids other
  than \<^verbatim>\<open>__proto__\<close>. A demand whose material exists and that the loop does not skip is
  among the cuts of the plan as often as it is among the demands, in exactly one bin when
  the demands are distinct, and it is not among the too-long pieces. A demand whose
  material exists and that the loop skips is in no bin; it is among the too-long pieces
  that \<^verbatim>\<open>ResultSection\<close> filters from the demands and the materials, and its id is in the
  group of its key. A demand whose material does not exist is in no bin and not among the
  too-long pieces. For whole millimetres the loop skips a demand exactly when its length is
  above \<open>stockLengthMm - FIXED_WASTE\<close>. The functions are total: no branch of the source
  throws, and the index \<open>bestIdx\<close> is within the list when it is used.
\<close>

theorem C6_assigned_or_too_long:
  "(\<forall>d \<in> set ds. materialMap ms (materialId d) = None \<longrightarrow>
      filter (\<lambda>p. d \<in> set (cuts p)) (all_bins (optimize ms ds)) = [] \<and>
      d \<notin> set (tooLong ms ds)) \<and>
   (\<forall>d \<in> set ds. \<forall>mat. materialMap ms (materialId d) = Some mat \<and> skipped mat d \<longrightarrow>
      filter (\<lambda>p. d \<in> set (cuts p)) (all_bins (optimize ms ds)) = [] \<and>
      d \<in> set (tooLong ms ds) \<and>
      (\<exists>g \<in> set (tooLongAgg ms ds). key g = demand_key d \<and> did d \<in> set (ids g))) \<and>
   (\<forall>d \<in> set ds. \<forall>mat. materialMap ms (materialId d) = Some mat \<and> \<not> skipped mat d \<and>
        materialId d \<noteq> ''__proto__'' \<longrightarrow>
      count (mset (plan_cuts (optimize ms ds))) d = count (mset ds) d \<and>
      (distinct ds \<longrightarrow>
         length (filter (\<lambda>p. d \<in> set (cuts p)) (all_bins (optimize ms ds))) = 1) \<and>
      d \<notin> set (tooLong ms ds)) \<and>
   (''__proto__'' \<notin> materialId ` set ds \<longrightarrow>
      mset (plan_cuts (optimize ms ds)) = mset (filter (fitting (materialMap ms)) ds)) \<and>
   plan_cuts (optimize ms ds) = concat (map cuts (all_bins (optimize ms ds))) \<and>
   (\<forall>(k, pipes) \<in> set (optimize ms ds). \<forall>p \<in> set pipes. \<forall>c \<in> set (cuts p). materialId c = k) \<and>
   (\<forall>g \<in> set (tooLongAgg ms ds). \<forall>i \<in> set (ids g). i \<in> did ` set (tooLong ms ds)) \<and>
   (\<forall>needed pipes. 0 \<le> scan needed pipes 0 (- 1) PInf \<longrightarrow>
      nat (scan needed pipes 0 (- 1) PInf) < length pipes) \<and>
   (whole_lengths ms ds \<longrightarrow>
      (\<forall>d \<in> set ds. \<forall>mat. materialMap ms (materialId d) = Some mat \<longrightarrow>
         (skipped mat d \<longleftrightarrow> val (stockLengthMm mat) - val FIXED_WASTE < val (lengthMm d))))"
proof (intro conjI ballI impI allI)
  fix d mat
  assume d: "d \<in> set ds"
    and a: "materialMap ms (materialId d) = Some mat \<and> \<not> skipped mat d \<and>
      materialId d \<noteq> ''__proto__''"
  then have as: "assignable (materialMap ms) d" by (simp add: assignable_def fitting_def)
  show "count (mset (plan_cuts (optimize ms ds))) d = count (mset ds) d"
    using as by (simp add: optimize_cuts)
  show "d \<notin> set (tooLong ms ds)"
    using a by (simp add: tooLong_member)
  assume dist: "distinct ds"
  have "mset (plan_cuts (optimize ms ds)) = mset (filter (assignable (materialMap ms)) ds)"
    by (rule optimize_cuts)
  moreover have "distinct (filter (assignable (materialMap ms)) ds)"
    using dist by (rule distinct_filter)
  ultimately have "distinct (plan_cuts (optimize ms ds))"
    by (metis mset_eq_imp_distinct_iff)
  then have 1: "distinct (concat (map cuts (all_bins (optimize ms ds))))"
    by (simp only: plan_cuts_all_bins)
  have "d \<in># mset (plan_cuts (optimize ms ds))"
    unfolding optimize_cuts using d as by simp
  then have 2: "d \<in> set (concat (map cuts (all_bins (optimize ms ds))))"
    by (simp add: plan_cuts_all_bins)
  from one_list_of_distinct_concat [OF 1 2]
  show "length (filter (\<lambda>p. d \<in> set (cuts p)) (all_bins (optimize ms ds))) = 1"
    by (simp only: filter_map_cuts)
next
  fix d mat assume d: "d \<in> set ds"
    and n: "materialMap ms (materialId d) = Some mat \<and> skipped mat d"
  then have na: "\<not> assignable (materialMap ms) d" by (simp add: assignable_def fitting_def)
  have "d \<notin># mset (plan_cuts (optimize ms ds))"
    unfolding optimize_cuts using na by simp
  then show "filter (\<lambda>p. d \<in> set (cuts p)) (all_bins (optimize ms ds)) = []"
    by (simp add: no_bin_iff)
  show t: "d \<in> set (tooLong ms ds)"
    using d n by (simp add: tooLong_member)
  show "\<exists>g \<in> set (tooLongAgg ms ds). key g = demand_key d \<and> did d \<in> set (ids g)"
    unfolding tooLongAgg_def by (rule aggregateDemands_has_id [OF t])
next
  fix d assume d: "d \<in> set ds" and n: "materialMap ms (materialId d) = None"
  then have na: "\<not> assignable (materialMap ms) d" by (simp add: assignable_def fitting_def)
  have "d \<notin># mset (plan_cuts (optimize ms ds))"
    unfolding optimize_cuts using na by simp
  then show "filter (\<lambda>p. d \<in> set (cuts p)) (all_bins (optimize ms ds)) = []"
    by (simp add: no_bin_iff)
  show "d \<notin> set (tooLong ms ds)"
    using n by (simp add: tooLong_member)
next
  assume np: "''__proto__'' \<notin> materialId ` set ds"
  have "filter (assignable (materialMap ms)) ds = filter (fitting (materialMap ms)) ds"
    by (rule filter_cong [OF refl]) (use np in \<open>auto simp: assignable_def image_iff\<close>)
  then show "mset (plan_cuts (optimize ms ds)) = mset (filter (fitting (materialMap ms)) ds)"
    by (simp only: optimize_cuts)
next
  show "plan_cuts (optimize ms ds) = concat (map cuts (all_bins (optimize ms ds)))"
    by (rule plan_cuts_all_bins)
next
  fix e assume e: "e \<in> set (optimize ms ds)"
  obtain k pipes where ek: "e = (k, pipes)" by (cases e)
  have "\<forall>p \<in> set pipes. \<forall>c \<in> set (cuts p). materialId c = k"
  proof (intro ballI)
    fix p c assume "p \<in> set pipes" and "c \<in> set (cuts p)"
    with e [unfolded ek] show "materialId c = k" by (rule optimize_cut_key)
  qed
  then show "case e of (k, pipes) \<Rightarrow> \<forall>p \<in> set pipes. \<forall>c \<in> set (cuts p). materialId c = k"
    by (simp add: ek)
next
  fix g i assume "g \<in> set (tooLongAgg ms ds)" and "i \<in> set (ids g)"
  then show "i \<in> did ` set (tooLong ms ds)"
    unfolding tooLongAgg_def by (rule aggregateDemands_ids)
next
  fix needed pipes assume nonneg: "0 \<le> scan needed pipes 0 (- 1) PInf"
  from scan_start_result [of needed pipes] nonneg
  show "nat (scan needed pipes 0 (- 1) PInf) < length pipes" by auto
next
  fix d mat
  assume w: "whole_lengths ms ds" and d: "d \<in> set ds"
    and m: "materialMap ms (materialId d) = Some mat"
  show "skipped mat d \<longleftrightarrow> val (stockLengthMm mat) - val FIXED_WASTE < val (lengthMm d)"
    by (rule skipped_exact [OF whole_lengths_material [OF w m] whole_lengths_demand [OF w d]])
qed

theorem C6_witness:
  "whole_lengths [Mat ''1'' (Fin 6000), Mat ''2'' (Fin 3000)]
     [Dem ''4'' ''2'' (Fin 5000), Dem ''5'' ''1'' (Fin 2500), Dem ''6'' ''9'' (Fin 100)] \<and>
   distinct [Dem ''4'' ''2'' (Fin 5000), Dem ''5'' ''1'' (Fin 2500), Dem ''6'' ''9'' (Fin 100)] \<and>
   ''__proto__'' \<notin> materialId `
     set [Dem ''4'' ''2'' (Fin 5000), Dem ''5'' ''1'' (Fin 2500), Dem ''6'' ''9'' (Fin 100)] \<and>
   materialMap [Mat ''1'' (Fin 6000), Mat ''2'' (Fin 3000)] ''9'' = None \<and>
   skipped (Mat ''2'' (Fin 3000)) (Dem ''4'' ''2'' (Fin 5000)) \<and>
   \<not> skipped (Mat ''1'' (Fin 6000)) (Dem ''5'' ''1'' (Fin 2500)) \<and>
   length (filter (\<lambda>p. Dem ''5'' ''1'' (Fin 2500) \<in> set (cuts p))
      (all_bins (optimize [Mat ''1'' (Fin 6000), Mat ''2'' (Fin 3000)]
         [Dem ''4'' ''2'' (Fin 5000), Dem ''5'' ''1'' (Fin 2500), Dem ''6'' ''9'' (Fin 100)]))) = 1 \<and>
   Dem ''5'' ''1'' (Fin 2500) \<notin> set (tooLong [Mat ''1'' (Fin 6000), Mat ''2'' (Fin 3000)]
         [Dem ''4'' ''2'' (Fin 5000), Dem ''5'' ''1'' (Fin 2500), Dem ''6'' ''9'' (Fin 100)]) \<and>
   filter (\<lambda>p. Dem ''4'' ''2'' (Fin 5000) \<in> set (cuts p))
      (all_bins (optimize [Mat ''1'' (Fin 6000), Mat ''2'' (Fin 3000)]
         [Dem ''4'' ''2'' (Fin 5000), Dem ''5'' ''1'' (Fin 2500), Dem ''6'' ''9'' (Fin 100)])) = [] \<and>
   Dem ''4'' ''2'' (Fin 5000) \<in> set (tooLong [Mat ''1'' (Fin 6000), Mat ''2'' (Fin 3000)]
         [Dem ''4'' ''2'' (Fin 5000), Dem ''5'' ''1'' (Fin 2500), Dem ''6'' ''9'' (Fin 100)]) \<and>
   filter (\<lambda>p. Dem ''6'' ''9'' (Fin 100) \<in> set (cuts p))
      (all_bins (optimize [Mat ''1'' (Fin 6000), Mat ''2'' (Fin 3000)]
         [Dem ''4'' ''2'' (Fin 5000), Dem ''5'' ''1'' (Fin 2500), Dem ''6'' ''9'' (Fin 100)])) = [] \<and>
   Dem ''6'' ''9'' (Fin 100) \<notin> set (tooLong [Mat ''1'' (Fin 6000), Mat ''2'' (Fin 3000)]
         [Dem ''4'' ''2'' (Fin 5000), Dem ''5'' ''1'' (Fin 2500), Dem ''6'' ''9'' (Fin 100)]) \<and>
   mset (plan_cuts (optimize [Mat ''1'' (Fin 6000), Mat ''2'' (Fin 3000)]
         [Dem ''4'' ''2'' (Fin 5000), Dem ''5'' ''1'' (Fin 2500), Dem ''6'' ''9'' (Fin 100)])) =
     {#Dem ''5'' ''1'' (Fin 2500)#} \<and>
   val (stockLengthMm (Mat ''2'' (Fin 3000))) - val FIXED_WASTE <
     val (lengthMm (Dem ''4'' ''2'' (Fin 5000)))"
proof -
  let ?ms = "[Mat ''1'' (Fin 6000), Mat ''2'' (Fin 3000)]"
  let ?ds = "[Dem ''4'' ''2'' (Fin 5000), Dem ''5'' ''1'' (Fin 2500), Dem ''6'' ''9'' (Fin 100)]"
  let ?d4 = "Dem ''4'' ''2'' (Fin 5000)" and ?d5 = "Dem ''5'' ''1'' (Fin 2500)"
    and ?d6 = "Dem ''6'' ''9'' (Fin 100)"
  note T = C6_assigned_or_too_long [of ds ms for ds ms]
  have hw: "whole_lengths ?ms ?ds" by code_simp
  have hd: "distinct ?ds" by code_simp
  have hp: "''__proto__'' \<notin> materialId ` set ?ds" by code_simp
  have m9: "materialMap ?ms ''9'' = None" by code_simp
  have m6: "materialMap ?ms (materialId ?d6) = None" by code_simp
  have m4: "materialMap ?ms (materialId ?d4) = Some (Mat ''2'' (Fin 3000))" by code_simp
  have m5: "materialMap ?ms (materialId ?d5) = Some (Mat ''1'' (Fin 6000))" by code_simp
  have s4: "skipped (Mat ''2'' (Fin 3000)) ?d4" by code_simp
  have s5: "\<not> skipped (Mat ''1'' (Fin 6000)) ?d5" by code_simp
  have p5: "materialId ?d5 \<noteq> ''__proto__''" by code_simp
  have i4: "?d4 \<in> set ?ds" and i5: "?d5 \<in> set ?ds" and i6: "?d6 \<in> set ?ds" by simp_all
  have fl: "filter (fitting (materialMap ?ms)) ?ds = [?d5]" by code_simp
  from T [of ?ds ?ms] have A: "\<forall>d \<in> set ?ds. materialMap ?ms (materialId d) = None \<longrightarrow>
      filter (\<lambda>p. d \<in> set (cuts p)) (all_bins (optimize ?ms ?ds)) = [] \<and>
      d \<notin> set (tooLong ?ms ?ds)"
    by (elim conjE)
  from bspec [OF A i6, THEN mp, OF m6]
  have c6: "filter (\<lambda>p. ?d6 \<in> set (cuts p)) (all_bins (optimize ?ms ?ds)) = []"
    and t6: "?d6 \<notin> set (tooLong ?ms ?ds)" by simp_all
  from T [of ?ds ?ms] have B: "\<forall>d \<in> set ?ds. \<forall>mat.
      materialMap ?ms (materialId d) = Some mat \<and> skipped mat d \<longrightarrow>
      filter (\<lambda>p. d \<in> set (cuts p)) (all_bins (optimize ?ms ?ds)) = [] \<and>
      d \<in> set (tooLong ?ms ?ds) \<and>
      (\<exists>g \<in> set (tooLongAgg ?ms ?ds). key g = demand_key d \<and> did d \<in> set (ids g))"
    by (elim conjE)
  from bspec [OF B i4, rule_format, OF conjI [OF m4 s4]]
  have c4: "filter (\<lambda>p. ?d4 \<in> set (cuts p)) (all_bins (optimize ?ms ?ds)) = []"
    and t4: "?d4 \<in> set (tooLong ?ms ?ds)" by simp_all
  from T [of ?ds ?ms] have C: "\<forall>d \<in> set ?ds. \<forall>mat.
      materialMap ?ms (materialId d) = Some mat \<and> \<not> skipped mat d \<and>
        materialId d \<noteq> ''__proto__'' \<longrightarrow>
      count (mset (plan_cuts (optimize ?ms ?ds))) d = count (mset ?ds) d \<and>
      (distinct ?ds \<longrightarrow>
         length (filter (\<lambda>p. d \<in> set (cuts p)) (all_bins (optimize ?ms ?ds))) = 1) \<and>
      d \<notin> set (tooLong ?ms ?ds)"
    by (elim conjE)
  from bspec [OF C i5, rule_format, OF conjI [OF m5 conjI [OF s5 p5]]] hd
  have c5: "length (filter (\<lambda>p. ?d5 \<in> set (cuts p)) (all_bins (optimize ?ms ?ds))) = 1"
    and t5: "?d5 \<notin> set (tooLong ?ms ?ds)" by simp_all
  from T [of ?ds ?ms] have D: "''__proto__'' \<notin> materialId ` set ?ds \<longrightarrow>
      mset (plan_cuts (optimize ?ms ?ds)) = mset (filter (fitting (materialMap ?ms)) ?ds)"
    by (elim conjE)
  from mp [OF D hp] have cm: "mset (plan_cuts (optimize ?ms ?ds)) = {#?d5#}"
    by (simp only: fl mset.simps)
  from T [of ?ds ?ms] have E: "whole_lengths ?ms ?ds \<longrightarrow>
      (\<forall>d \<in> set ?ds. \<forall>mat. materialMap ?ms (materialId d) = Some mat \<longrightarrow>
         (skipped mat d \<longleftrightarrow> val (stockLengthMm mat) - val FIXED_WASTE < val (lengthMm d)))"
    by (elim conjE)
  from mp [OF E hw, THEN bspec, OF i4, rule_format, OF m4] s4
  have ex: "val (stockLengthMm (Mat ''2'' (Fin 3000))) - val FIXED_WASTE < val (lengthMm ?d4)"
    by simp
  from hw hd hp m9 s4 s5 c5 t5 c4 t4 c6 t6 cm ex show ?thesis by (intro conjI)
qed

subsection \<open>C8\<close>


subsection \<open>C10\<close>

text \<open>
  C10 (as the specification states it) makes a material whose demands are all longer than
  \<open>stockLengthMm - FIXED_WASTE\<close> an entry with no bin. The code subtracts in doubles: for
  a stock length of \<open>2^61\<close> mm the difference \<open>2^61 - 110\<close> is rounded to \<open>2^61\<close>, so a
  demand of \<open>2^61\<close> mm, which is longer than \<open>2^61 - 110\<close>, is not skipped, and the entry of
  its material has a bin.
\<close>

theorem C10_counterexample:
  "optimize [Mat ''1'' (Fin (2 ^ 61))] [Dem ''2'' ''1'' (Fin (2 ^ 61))] =
     [(''1'', [\<lparr>cuts = [Dem ''2'' ''1'' (Fin (2 ^ 61))], remainingMm = Fin 2,
               pipeStockLengthMm = Fin (2 ^ 61), usableMm = Fin (2 ^ 61)\<rparr>])] \<and>
   val (lengthMm (Dem ''2'' ''1'' (Fin (2 ^ 61)))) >
     val (stockLengthMm (Mat ''1'' (Fin (2 ^ 61)))) - val FIXED_WASTE"
  by code_simp

text \<open>
  C10, amended: the keys of the plan, for material ids other than \<^verbatim>\<open>__proto__\<close> (the one
  key that a plain object does not store as a property). The keys are the material ids
  that occur in a demand and belong to a material, each once. A material whose demands
  are all skipped by the loop is mapped to the empty list of bins, a material without a
  demand has no entry, and no bin of the plan is without a cut. For whole millimetres the
  loop skips a demand exactly when its length is above \<open>stockLengthMm - FIXED_WASTE\<close>.
\<close>

theorem C10_plan_keys:
  "(''__proto__'' \<notin> mid ` set ms \<longrightarrow>
      set (map fst (optimize ms ds)) = materialId ` set ds \<inter> mid ` set ms) \<and>
   distinct (map fst (optimize ms ds)) \<and>
   (\<forall>(k, pipes) \<in> set (optimize ms ds). \<forall>p \<in> set pipes. cuts p \<noteq> []) \<and>
   (\<forall>k mat. k \<noteq> ''__proto__'' \<and> k \<in> materialId ` set ds \<and> materialMap ms k = Some mat \<and>
       (\<forall>d \<in> set ds. materialId d = k \<longrightarrow> skipped mat d) \<longrightarrow>
       map_of (optimize ms ds) k = Some []) \<and>
   (\<forall>k. k \<notin> materialId ` set ds \<longrightarrow> map_of (optimize ms ds) k = None) \<and>
   (whole_lengths ms ds \<longrightarrow>
      (\<forall>d \<in> set ds. \<forall>mat. materialMap ms (materialId d) = Some mat \<longrightarrow>
         (skipped mat d \<longleftrightarrow> val (stockLengthMm mat) - val FIXED_WASTE < val (lengthMm d))))"
proof (intro conjI)
  show "''__proto__'' \<notin> mid ` set ms \<longrightarrow>
      set (map fst (optimize ms ds)) = materialId ` set ds \<inter> mid ` set ms"
    unfolding optimize_key_set by blast
  show "distinct (map fst (optimize ms ds))"
    by (rule optimize_distinct)
  show "\<forall>(k, pipes) \<in> set (optimize ms ds). \<forall>p \<in> set pipes. cuts p \<noteq> []"
  proof (intro ballI, clarify)
    fix k pipes p assume kp: "(k, pipes) \<in> set (optimize ms ds)" and p: "p \<in> set pipes"
      and e: "cuts p = []"
    from kp obtain m where "pipes = packMaterial m (filter (\<lambda>d. materialId d = k) ds)"
      by (rule optimize_member)
    with p have "p \<in> set (packMaterial m (filter (\<lambda>d. materialId d = k) ds))" by simp
    from packMaterial_nonempty [OF this] e show False by simp
  qed
  show "\<forall>k mat. k \<noteq> ''__proto__'' \<and> k \<in> materialId ` set ds \<and> materialMap ms k = Some mat \<and>
       (\<forall>d \<in> set ds. materialId d = k \<longrightarrow> skipped mat d) \<longrightarrow>
       map_of (optimize ms ds) k = Some []"
  proof (intro allI impI, elim conjE)
    fix k mat
    assume np: "k \<noteq> ''__proto__''"
      and k: "k \<in> materialId ` set ds" and m: "materialMap ms k = Some mat"
      and long: "\<forall>d \<in> set ds. materialId d = k \<longrightarrow> skipped mat d"
    from long have "\<forall>d \<in> set (filter (\<lambda>d. materialId d = k) ds). skipped mat d"
      by simp
    then have "packMaterial mat (filter (\<lambda>d. materialId d = k) ds) = []"
      by (rule packMaterial_all_skipped)
    with k m np have "(k, []) \<in> set (optimize ms ds)"
      unfolding optimize_entry by simp
    then show "map_of (optimize ms ds) k = Some []"
      by (simp only: optimize_map_of)
  qed
  show "\<forall>k. k \<notin> materialId ` set ds \<longrightarrow> map_of (optimize ms ds) k = None"
  proof (intro allI impI)
    fix k assume "k \<notin> materialId ` set ds"
    then have "k \<notin> set (map fst (optimize ms ds))"
      unfolding optimize_key_set by simp
    then show "map_of (optimize ms ds) k = None"
      by (simp add: map_of_eq_None_iff)
  qed
  show "whole_lengths ms ds \<longrightarrow>
      (\<forall>d \<in> set ds. \<forall>mat. materialMap ms (materialId d) = Some mat \<longrightarrow>
         (skipped mat d \<longleftrightarrow> val (stockLengthMm mat) - val FIXED_WASTE < val (lengthMm d)))"
  proof (intro impI ballI allI)
    fix d mat
    assume w: "whole_lengths ms ds" and d: "d \<in> set ds"
      and m: "materialMap ms (materialId d) = Some mat"
    show "skipped mat d \<longleftrightarrow> val (stockLengthMm mat) - val FIXED_WASTE < val (lengthMm d)"
      by (rule skipped_exact [OF whole_lengths_material [OF w m] whole_lengths_demand [OF w d]])
  qed
qed

theorem C10_witness:
  "''__proto__'' \<notin> mid ` set [Mat ''1'' (Fin 6000), Mat ''2'' (Fin 3000), Mat ''3'' (Fin 6000)] \<and>
   whole_lengths [Mat ''1'' (Fin 6000), Mat ''2'' (Fin 3000), Mat ''3'' (Fin 6000)]
     [Dem ''4'' ''2'' (Fin 5000), Dem ''5'' ''1'' (Fin 2500), Dem ''6'' ''9'' (Fin 100)] \<and>
   set (map fst (optimize [Mat ''1'' (Fin 6000), Mat ''2'' (Fin 3000), Mat ''3'' (Fin 6000)]
     [Dem ''4'' ''2'' (Fin 5000), Dem ''5'' ''1'' (Fin 2500), Dem ''6'' ''9'' (Fin 100)])) =
     {''1'', ''2''} \<and>
   map_of (optimize [Mat ''1'' (Fin 6000), Mat ''2'' (Fin 3000), Mat ''3'' (Fin 6000)]
     [Dem ''4'' ''2'' (Fin 5000), Dem ''5'' ''1'' (Fin 2500), Dem ''6'' ''9'' (Fin 100)]) ''2'' =
     Some [] \<and>
   map_of (optimize [Mat ''1'' (Fin 6000), Mat ''2'' (Fin 3000), Mat ''3'' (Fin 6000)]
     [Dem ''4'' ''2'' (Fin 5000), Dem ''5'' ''1'' (Fin 2500), Dem ''6'' ''9'' (Fin 100)]) ''3'' =
     None \<and>
   skipped (Mat ''2'' (Fin 3000)) (Dem ''4'' ''2'' (Fin 5000))"
proof -
  let ?ms = "[Mat ''1'' (Fin 6000), Mat ''2'' (Fin 3000), Mat ''3'' (Fin 6000)]"
  let ?ds = "[Dem ''4'' ''2'' (Fin 5000), Dem ''5'' ''1'' (Fin 2500), Dem ''6'' ''9'' (Fin 100)]"
  note T = C10_plan_keys [of ?ms ?ds]
  have h0: "''__proto__'' \<notin> mid ` set ?ms" by code_simp
  have hw: "whole_lengths ?ms ?ds" by code_simp
  have h1: "''2'' \<noteq> ''__proto__'' \<and> ''2'' \<in> materialId ` set ?ds \<and>
      materialMap ?ms ''2'' = Some (Mat ''2'' (Fin 3000)) \<and>
      (\<forall>d \<in> set ?ds. materialId d = ''2'' \<longrightarrow> skipped (Mat ''2'' (Fin 3000)) d)"
    by code_simp
  have h2: "''3'' \<notin> materialId ` set ?ds" by code_simp
  have h3: "Dem ''4'' ''2'' (Fin 5000) \<in> set ?ds" by simp
  have h4: "materialMap ?ms (materialId (Dem ''4'' ''2'' (Fin 5000))) = Some (Mat ''2'' (Fin 3000))"
    by code_simp
  have ks: "materialId ` set ?ds \<inter> mid ` set ?ms = {''1'', ''2''}" by code_simp
  from T have "''__proto__'' \<notin> mid ` set ?ms \<longrightarrow>
      set (map fst (optimize ?ms ?ds)) = materialId ` set ?ds \<inter> mid ` set ?ms"
    by (elim conjE)
  from mp [OF this h0] have c0: "set (map fst (optimize ?ms ?ds)) = {''1'', ''2''}"
    by (simp only: ks)
  from T have "\<forall>k mat. k \<noteq> ''__proto__'' \<and> k \<in> materialId ` set ?ds \<and>
       materialMap ?ms k = Some mat \<and>
       (\<forall>d \<in> set ?ds. materialId d = k \<longrightarrow> skipped mat d) \<longrightarrow>
       map_of (optimize ?ms ?ds) k = Some []"
    by (elim conjE)
  from this [rule_format, OF h1] have c1: "map_of (optimize ?ms ?ds) ''2'' = Some []" .
  from T have "\<forall>k. k \<notin> materialId ` set ?ds \<longrightarrow> map_of (optimize ?ms ?ds) k = None"
    by (elim conjE)
  from this [rule_format, OF h2] have c2: "map_of (optimize ?ms ?ds) ''3'' = None" .
  from T have "whole_lengths ?ms ?ds \<longrightarrow>
      (\<forall>d \<in> set ?ds. \<forall>mat. materialMap ?ms (materialId d) = Some mat \<longrightarrow>
         (skipped mat d \<longleftrightarrow> val (stockLengthMm mat) - val FIXED_WASTE < val (lengthMm d)))"
    by (elim conjE)
  from mp [OF this hw, THEN bspec, OF h3, rule_format, OF h4]
  have "skipped (Mat ''2'' (Fin 3000)) (Dem ''4'' ''2'' (Fin 5000)) \<longleftrightarrow>
      val (stockLengthMm (Mat ''2'' (Fin 3000))) - val FIXED_WASTE <
      val (lengthMm (Dem ''4'' ''2'' (Fin 5000)))" .
  moreover have "val (stockLengthMm (Mat ''2'' (Fin 3000))) - val FIXED_WASTE <
      val (lengthMm (Dem ''4'' ''2'' (Fin 5000)))" by code_simp
  ultimately have c3: "skipped (Mat ''2'' (Fin 3000)) (Dem ''4'' ''2'' (Fin 5000))" by simp
  from h0 hw c0 c1 c2 c3 show ?thesis by (intro conjI)
qed

end
